theory Spec2Isabelle
  imports Main "HOL-Library.Word"
begin

unbundle bit_operations_syntax

section \<open>Outcomes of Go calls\<close>

text \<open>
  A Go call of \<^verbatim>\<open>promise.go\<close> either returns, returns a non-nil \<^verbatim>\<open>error\<close>, or panics
  (an explicit \<^verbatim>\<open>panic(...)\<close> or a run-time index or slice error). The three outcomes are
  kept apart: \<open>Ok\<close> is a normal return (for a function whose only result is an
  \<^verbatim>\<open>error\<close>, \<open>Ok ()\<close> is the nil error), \<open>Err\<close> a returned error, \<open>Panic\<close> a panic.
\<close>

datatype panic =
    NotEnoughInsurers     \<comment> \<open>panic("Not enough insurers for the secret")\<close>
  | BadSharedSecret       \<comment> \<open>panic("Bad shared secret for Diffie-Hellman give.")\<close>
  | IndexOutOfRange       \<comment> \<open>run-time panic: index out of range\<close>
  | SliceOutOfRange       \<comment> \<open>run-time panic: slice bounds out of range\<close>
  | MakeLenOutOfRange     \<comment> \<open>run-time panic: makeslice: len out of range\<close>
  | LibraryPanic          \<comment> \<open>a panic raised inside an imported package\<close>

datatype error =
    InvalidIndex          \<comment> \<open>"Invalid index. Expected 0 <= i < n"\<close>
  | InsurerKeyDiffers     \<comment> \<open>"The public key the promise recorded for this shares differs ..."\<close>
  | ShareCheckFailed      \<comment> \<open>"The share failed the public polynomial check."\<close>
  | NilSignature          \<comment> \<open>"Nil signature"\<close>
  | AnonVerifyFailed      \<comment> \<open>the error of anon.Verify\<close>
  | HashProveFailed       \<comment> \<open>the error of proof.HashProve\<close>
  | HashVerifyFailed      \<comment> \<open>the error of proof.HashVerify\<close>
  | UnjustifiedBlame      \<comment> \<open>"Unjustified blame. The share checks out okay."\<close>
  | InvalidShares         \<comment> \<open>"Invalid t-of-n shares promise: expected t <= r <= n"\<close>
  | PubKeyDiffers         \<comment> \<open>"Public key of promise differs from what is expected"\<close>
  | BadArrayLengths       \<comment> \<open>"Insurers and secrets array should be of length promise.n"\<close>
  | ValidBlameProof       \<comment> \<open>"A valid blame proofs proves this Promise to be uncertified."\<close>
  | NotEnoughSignatures   \<comment> \<open>"Not enough signatures yet to be certified"\<close>
  | BufferTooSmall        \<comment> \<open>"Buffer size too small"\<close>
  | PointEncodingError    \<comment> \<open>the error of a Point's MarshalBinary or UnmarshalBinary\<close>
  | SecretEncodingError   \<comment> \<open>the error of a Secret's MarshalBinary or UnmarshalBinary\<close>
  | PolyEncodingError     \<comment> \<open>the error of PubPoly's MarshalBinary or UnmarshalBinary\<close>

datatype 'a result = Ok 'a | Err error | Panic panic

definition rbind :: "'a result \<Rightarrow> ('a \<Rightarrow> 'b result) \<Rightarrow> 'b result" where
  "rbind m f = (case m of Ok x \<Rightarrow> f x | Err e \<Rightarrow> Err e | Panic q \<Rightarrow> Panic q)"

text \<open>\<^verbatim>\<open>xs[i]\<close> on a Go slice: a run-time panic outside \<open>[0, len(xs))\<close>.\<close>

definition go_index :: "'a list \<Rightarrow> int \<Rightarrow> 'a result" where
  "go_index xs i = (if 0 \<le> i \<and> i < int (length xs) then Ok (xs ! nat i) else Panic IndexOutOfRange)"

section \<open>The external collaborators\<close>

type_synonym byte = "8 word"

text \<open>
  The group abstraction, the polynomial library, the anonymous-set signature and the
  proof framework are imported packages (\<^verbatim>\<open>abstract\<close>, \<^verbatim>\<open>poly\<close>, \<^verbatim>\<open>anon\<close>, \<^verbatim>\<open>proof\<close>); none of
  their code is part of \<^verbatim>\<open>promise.go\<close>. They are taken as parameters: one record holds the
  operations \<^verbatim>\<open>promise.go\<close> calls, under the names it calls them by. Type variables:
  \<open>'su\<close> suites (compared by identity), \<open>'pt\<close> points, \<open>'sc\<close> secrets (scalars),
  \<open>'pp\<close> private polynomials, \<open>'sh\<close> private shares, \<open>'pl\<close> public polynomials and
  \<open>'rn\<close> the random input an operation draws from \<^verbatim>\<open>random.Stream\<close> (made an
  explicit argument). \<^verbatim>\<open>Equal\<close> on points and secrets is HOL equality; a point or
  secret is always a value (Go's nil interface value is outside the model).

  An error an operation can return is \<open>None\<close> or \<open>False\<close>. The operations are total
  functions, with one exception: \<open>PriPoly_Pick\<close> receives the threshold \<open>t\<close> that
  \<^verbatim>\<open>ConstructPromise\<close> never checks from below, so whether it returns for a \<open>t\<close> below 1
  is the library's to decide; its result is \<open>None\<close> when the call does not return (it
  panics) and \<open>Some\<close> of the polynomial when it does. Panics of the other operations are
  outside the model.

  \<open>Secret_Pick su seed\<close> is \<^verbatim>\<open>su.Secret().Pick(su.Cipher(seed))\<close>: the cipher is seeded
  with \<open>seed\<close> alone. \<open>Point_Base su\<close> is the standard base, which Go writes as a nil
  base argument. \<open>anon_Sign\<close> and \<open>anon_Verify\<close> are called with a nil link scope
  throughout, which is left out.
\<close>

record ('su, 'pt, 'sc, 'pp, 'sh, 'pl, 'rn) crypto =
  PointLen :: "'su \<Rightarrow> nat"
  SecretLen :: "'su \<Rightarrow> nat"
  Point_Base :: "'su \<Rightarrow> 'pt"
  Point_Mul :: "'su \<Rightarrow> 'pt \<Rightarrow> 'sc \<Rightarrow> 'pt"
  Point_MarshalBinary :: "'pt \<Rightarrow> byte list option"
  Point_UnmarshalBinary :: "'su \<Rightarrow> byte list \<Rightarrow> 'pt option"
  Secret_Pick :: "'su \<Rightarrow> byte list \<Rightarrow> 'sc"
  Secret_Add :: "'su \<Rightarrow> 'sc \<Rightarrow> 'sc \<Rightarrow> 'sc"
  Secret_Sub :: "'su \<Rightarrow> 'sc \<Rightarrow> 'sc \<Rightarrow> 'sc"
  Secret_MarshalBinary :: "'sc \<Rightarrow> byte list option"
  Secret_UnmarshalBinary :: "'su \<Rightarrow> byte list \<Rightarrow> 'sc option"
  PriPoly_Pick :: "'su \<Rightarrow> int \<Rightarrow> 'sc \<Rightarrow> 'rn \<Rightarrow> 'pp option"
  PriShares_Split :: "'pp \<Rightarrow> int \<Rightarrow> 'sh"
  PriShares_Share :: "'sh \<Rightarrow> int \<Rightarrow> 'sc"
  PriShares_Empty :: "'su \<Rightarrow> int \<Rightarrow> int \<Rightarrow> 'sh"
  PubPoly_Commit :: "'pp \<Rightarrow> 'pl"
  PubPoly_Init :: "'su \<Rightarrow> int \<Rightarrow> 'pl"
  PubPoly_Check :: "'pl \<Rightarrow> int \<Rightarrow> 'sc \<Rightarrow> bool"
  PubPoly_Equal :: "'pl \<Rightarrow> 'pl \<Rightarrow> bool"
  PubPoly_MarshalSize :: "'pl \<Rightarrow> nat"
  PubPoly_MarshalBinary :: "'pl \<Rightarrow> byte list option"
  PubPoly_UnmarshalBinary :: "'pl \<Rightarrow> byte list \<Rightarrow> 'pl option"
  anon_Sign :: "'su \<Rightarrow> 'rn \<Rightarrow> byte list \<Rightarrow> 'pt list \<Rightarrow> int \<Rightarrow> 'sc \<Rightarrow> byte list"
  anon_Verify :: "'su \<Rightarrow> byte list \<Rightarrow> 'pt list \<Rightarrow> byte list \<Rightarrow> bool"
  proof_HashProve :: "'su \<Rightarrow> string \<Rightarrow> 'rn \<Rightarrow> 'sc \<Rightarrow> 'pt \<Rightarrow> 'pt \<Rightarrow> byte list option"
  proof_HashVerify :: "'su \<Rightarrow> string \<Rightarrow> 'pt \<Rightarrow> 'pt \<Rightarrow> byte list \<Rightarrow> bool"

text \<open>A \<^verbatim>\<open>config.KeyPair\<close>.\<close>

record ('su, 'pt, 'sc) KeyPair =
  Suite :: 'su
  Public :: 'pt
  Secret :: 'sc

section \<open>The constants of promise.go\<close>

definition uint32Size :: nat where
  "uint32Size = 4"

definition protocolName :: string where
  "protocolName = ''Promise Protocol''"

text \<open>\<^verbatim>\<open>[]byte(s)\<close> for an ASCII string literal \<open>s\<close>.\<close>

definition bytes_of :: "string \<Rightarrow> byte list" where
  "bytes_of s = map (\<lambda>c. of_nat (of_char c)) s"

definition sigMsg :: "byte list" where
  "sigMsg = bytes_of ''Promise Signature''"

definition sigBlameMsg :: "byte list" where
  "sigBlameMsg = bytes_of ''Promise Blame Signature''"

section \<open>The data of promise.go\<close>

text \<open>
  A Go byte slice is nil or a sequence of bytes, and \<^verbatim>\<open>reflect.DeepEqual\<close> tells the nil
  slice from the empty one: \<open>None\<close> is nil. Readers of a slice (\<^verbatim>\<open>len\<close>, \<^verbatim>\<open>copy\<close>) see nil as
  empty, which is \<open>slice_bytes\<close>.
\<close>

definition slice_bytes :: "byte list option \<Rightarrow> byte list" where
  "slice_bytes s = (case s of None \<Rightarrow> [] | Some bs \<Rightarrow> bs)"

record 'su PromiseSignature =
  sig_suite :: 'su
  sig_signature :: "byte list option"

record ('su, 'pt) BlameProof =
  bp_suite :: 'su
  diffieKey :: 'pt
  diffieKeyProof :: "byte list option"
  bp_signature :: "'su PromiseSignature"

record ('su, 'pt, 'sc, 'pl) Promise =
  shareSuite :: 'su
  p_t :: int
  p_r :: int
  p_n :: int
  pubKey :: 'pt
  pubPoly :: 'pl
  insurers :: "'pt list"
  secrets :: "'sc list"

section \<open>Promise construction and the per-share operations\<close>

text \<open>
  \<^verbatim>\<open>diffieHellmanEncrypt\<close> and \<^verbatim>\<open>diffieHellmanDecrypt\<close> read only \<^verbatim>\<open>p.shareSuite\<close> of their
  receiver, which is passed in the receiver's place.
\<close>

definition diffieHellmanEncrypt ::
  "('su, 'pt, 'sc, 'pp, 'sh, 'pl, 'rn) crypto \<Rightarrow> 'su \<Rightarrow> 'sc \<Rightarrow> 'pt \<Rightarrow> 'sc result" where
  "diffieHellmanEncrypt X su secret diffieBase =
     (case Point_MarshalBinary X diffieBase of
        None \<Rightarrow> Panic BadSharedSecret
      | Some buff \<Rightarrow> Ok (Secret_Add X su secret (Secret_Pick X su buff)))"

definition diffieHellmanDecrypt ::
  "('su, 'pt, 'sc, 'pp, 'sh, 'pl, 'rn) crypto \<Rightarrow> 'su \<Rightarrow> 'sc \<Rightarrow> 'pt \<Rightarrow> 'sc result" where
  "diffieHellmanDecrypt X su secret diffieBase =
     (case Point_MarshalBinary X diffieBase of
        None \<Rightarrow> Panic BadSharedSecret
      | Some buff \<Rightarrow> Ok (Secret_Sub X su secret (Secret_Pick X su buff)))"

text \<open>
  The loop of \<^verbatim>\<open>ConstructPromise\<close> that fills \<^verbatim>\<open>p.secrets\<close>: it runs over the insurers from
  index \<open>i\<close> on and stops at the first panic.
\<close>

fun encrypt_shares ::
  "('su, 'pt, 'sc, 'pp, 'sh, 'pl, 'rn) crypto \<Rightarrow> 'su \<Rightarrow> 'sh \<Rightarrow> 'sc \<Rightarrow> 'pt list \<Rightarrow> int
     \<Rightarrow> 'sc list result" where
  "encrypt_shares X su prishares ksecret [] i = Ok []"
| "encrypt_shares X su prishares ksecret (ins # rest) i =
     rbind (diffieHellmanEncrypt X su (PriShares_Share X prishares i) (Point_Mul X su ins ksecret))
       (\<lambda>c. rbind (encrypt_shares X su prishares ksecret rest (i + 1)) (\<lambda>cs. Ok (c # cs)))"

definition ConstructPromise ::
  "('su, 'pt, 'sc, 'pp, 'sh, 'pl, 'rn) crypto \<Rightarrow> ('su, 'pt, 'sc) KeyPair \<Rightarrow> ('su, 'pt, 'sc) KeyPair
     \<Rightarrow> int \<Rightarrow> int \<Rightarrow> 'pt list \<Rightarrow> 'rn \<Rightarrow> ('su, 'pt, 'sc, 'pl) Promise result" where
  "ConstructPromise X secret keyPair t r ins rnd =
     (let n = int (length ins); su = Suite secret in
      if n < t then Panic NotEnoughInsurers
      else
        let r1 = (if r < t then t else r);
            r2 = (if r1 > n then n else r1)
        in case PriPoly_Pick X su t (Secret secret) rnd of
             None \<Rightarrow> Panic LibraryPanic
           | Some pripoly \<Rightarrow>
               let prishares = PriShares_Split X pripoly n;
                   pubpoly = PubPoly_Commit X pripoly
               in rbind (encrypt_shares X su prishares (Secret keyPair) ins 0)
                    (\<lambda>secs. Ok \<lparr> shareSuite = su, p_t = t, p_r = r2, p_n = n,
                                  pubKey = Public keyPair, pubPoly = pubpoly,
                                  insurers = ins, secrets = secs \<rparr>))"

definition VerifyPromise :: "('su, 'pt, 'sc, 'pl) Promise \<Rightarrow> 'pt \<Rightarrow> unit result" where
  "VerifyPromise p promiserKey =
     (if p_t p > p_n p \<or> p_t p > p_r p \<or> p_r p > p_n p then Err InvalidShares
      else if promiserKey \<noteq> pubKey p then Err PubKeyDiffers
      else if int (length (insurers p)) \<noteq> p_n p \<or> int (length (secrets p)) \<noteq> p_n p
        then Err BadArrayLengths
      else Ok ())"

definition VerifyShare ::
  "('su, 'pt, 'sc, 'pp, 'sh, 'pl, 'rn) crypto \<Rightarrow> ('su, 'pt, 'sc, 'pl) Promise \<Rightarrow> int
     \<Rightarrow> ('su, 'pt, 'sc) KeyPair \<Rightarrow> unit result" where
  "VerifyShare X p i gKeyPair =
     (if i < 0 \<or> i \<ge> p_n p then Err InvalidIndex
      else rbind (go_index (insurers p) i) (\<lambda>ins.
        if ins \<noteq> Public gKeyPair then Err InsurerKeyDiffers
        else
          let diffieBase = Point_Mul X (shareSuite p) (pubKey p) (Secret gKeyPair) in
          rbind (go_index (secrets p) i) (\<lambda>sec.
          rbind (diffieHellmanDecrypt X (shareSuite p) sec diffieBase) (\<lambda>share.
            if \<not> PubPoly_Check X (pubPoly p) i share then Err ShareCheckFailed
            else Ok ()))))"

text \<open>\<^verbatim>\<open>sign\<close> uses neither its receiver nor its index; both stay arguments, as in the source.\<close>

definition sign ::
  "('su, 'pt, 'sc, 'pp, 'sh, 'pl, 'rn) crypto \<Rightarrow> ('su, 'pt, 'sc, 'pl) Promise \<Rightarrow> int
     \<Rightarrow> ('su, 'pt, 'sc) KeyPair \<Rightarrow> byte list \<Rightarrow> 'rn \<Rightarrow> 'su PromiseSignature" where
  "sign X p i gKeyPair msg rnd =
     (let set = [Public gKeyPair];
          sig = anon_Sign X (Suite gKeyPair) rnd msg set 0 (Secret gKeyPair)
      in \<lparr> sig_suite = Suite gKeyPair, sig_signature = Some sig \<rparr>)"

definition Sign ::
  "('su, 'pt, 'sc, 'pp, 'sh, 'pl, 'rn) crypto \<Rightarrow> ('su, 'pt, 'sc, 'pl) Promise \<Rightarrow> int
     \<Rightarrow> ('su, 'pt, 'sc) KeyPair \<Rightarrow> 'rn \<Rightarrow> 'su PromiseSignature" where
  "Sign X p i gKeyPair rnd = sign X p i gKeyPair sigMsg rnd"

definition verifySignature ::
  "('su, 'pt, 'sc, 'pp, 'sh, 'pl, 'rn) crypto \<Rightarrow> ('su, 'pt, 'sc, 'pl) Promise \<Rightarrow> int
     \<Rightarrow> 'su PromiseSignature \<Rightarrow> byte list \<Rightarrow> unit result" where
  "verifySignature X p i sig msg =
     (case sig_signature sig of
        None \<Rightarrow> Err NilSignature
      | Some s \<Rightarrow>
          if i < 0 \<or> i \<ge> p_n p then Err InvalidIndex
          else rbind (go_index (insurers p) i) (\<lambda>ins.
            if anon_Verify X (sig_suite sig) msg [ins] s then Ok () else Err AnonVerifyFailed))"

definition VerifySignature ::
  "('su, 'pt, 'sc, 'pp, 'sh, 'pl, 'rn) crypto \<Rightarrow> ('su, 'pt, 'sc, 'pl) Promise \<Rightarrow> int
     \<Rightarrow> 'su PromiseSignature \<Rightarrow> unit result" where
  "VerifySignature X p i sig = verifySignature X p i sig sigMsg"

definition RevealShare ::
  "('su, 'pt, 'sc, 'pp, 'sh, 'pl, 'rn) crypto \<Rightarrow> ('su, 'pt, 'sc, 'pl) Promise \<Rightarrow> int
     \<Rightarrow> ('su, 'pt, 'sc) KeyPair \<Rightarrow> 'sc result" where
  "RevealShare X p i gKeyPair =
     (let diffieBase = Point_Mul X (shareSuite p) (pubKey p) (Secret gKeyPair) in
      rbind (go_index (secrets p) i) (\<lambda>sec.
        diffieHellmanDecrypt X (shareSuite p) sec diffieBase))"

definition VerifyRevealedShare ::
  "('su, 'pt, 'sc, 'pp, 'sh, 'pl, 'rn) crypto \<Rightarrow> ('su, 'pt, 'sc, 'pl) Promise \<Rightarrow> int
     \<Rightarrow> 'sc \<Rightarrow> unit result" where
  "VerifyRevealedShare X p i share =
     (if i > p_n p \<or> i < 0 then Err InvalidIndex
      else if \<not> PubPoly_Check X (pubPoly p) i share then Err ShareCheckFailed
      else Ok ())"

text \<open>
  \<^verbatim>\<open>Blame\<close> draws randomness twice: \<open>rnd\<close> for the signature (\<^verbatim>\<open>random.Stream\<close>) and
  \<open>rnd2\<close> for the prover (\<^verbatim>\<open>p.shareSuite.Cipher(abstract.RandomKey)\<close>). The predicate is
  \<^verbatim>\<open>proof.Rep("D", "x", "P")\<close> with the secret \<open>x\<close> and the points \<open>D\<close>, \<open>P\<close>, which are the
  last three arguments of \<open>proof_HashProve\<close>.
\<close>

definition Blame ::
  "('su, 'pt, 'sc, 'pp, 'sh, 'pl, 'rn) crypto \<Rightarrow> ('su, 'pt, 'sc, 'pl) Promise \<Rightarrow> int
     \<Rightarrow> ('su, 'pt, 'sc) KeyPair \<Rightarrow> 'rn \<Rightarrow> 'rn \<Rightarrow> ('su, 'pt) BlameProof result" where
  "Blame X p i gKeyPair rnd rnd2 =
     (let dk = Point_Mul X (shareSuite p) (pubKey p) (Secret gKeyPair);
          insurerSig = sign X p i gKeyPair sigBlameMsg rnd
      in case proof_HashProve X (shareSuite p) protocolName rnd2 (Secret gKeyPair) dk (pubKey p) of
           None \<Rightarrow> Err HashProveFailed
         | Some prf \<Rightarrow> Ok \<lparr> bp_suite = shareSuite p, diffieKey = dk,
                            diffieKeyProof = Some prf, bp_signature = insurerSig \<rparr>)"

definition VerifyBlame ::
  "('su, 'pt, 'sc, 'pp, 'sh, 'pl, 'rn) crypto \<Rightarrow> ('su, 'pt, 'sc, 'pl) Promise \<Rightarrow> int
     \<Rightarrow> ('su, 'pt) BlameProof \<Rightarrow> unit result" where
  "VerifyBlame X p i blSig =
     (if i < 0 \<or> i \<ge> p_n p then Err InvalidIndex
      else rbind (verifySignature X p i (bp_signature blSig) sigBlameMsg) (\<lambda>_.
        if \<not> proof_HashVerify X (shareSuite p) protocolName (diffieKey blSig) (pubKey p)
               (slice_bytes (diffieKeyProof blSig))
        then Err HashVerifyFailed
        else
          rbind (go_index (secrets p) i) (\<lambda>sec.
          rbind (diffieHellmanDecrypt X (shareSuite p) sec (diffieKey blSig)) (\<lambda>share.
            if PubPoly_Check X (pubPoly p) i share then Err UnjustifiedBlame
            else Ok ()))))"

section \<open>The promise state\<close>

text \<open>
  \<^verbatim>\<open>signatures\<close> and \<^verbatim>\<open>blames\<close> are slices of pointers: a slot is nil (\<open>None\<close>) or holds
  a signature or a blame proof.
\<close>

record ('su, 'pt, 'sc, 'sh, 'pl) PromiseState =
  ps_Promise :: "('su, 'pt, 'sc, 'pl) Promise"
  ps_PriShares :: 'sh
  signatures :: "'su PromiseSignature option list"
  blames :: "('su, 'pt) BlameProof option list"

definition Init ::
  "('su, 'pt, 'sc, 'pp, 'sh, 'pl, 'rn) crypto \<Rightarrow> ('su, 'pt, 'sc, 'pl) Promise
     \<Rightarrow> ('su, 'pt, 'sc, 'sh, 'pl) PromiseState result" where
  "Init X promise =
     (if p_n promise < 0 then Panic MakeLenOutOfRange
      else Ok \<lparr> ps_Promise = promise,
                ps_PriShares = PriShares_Empty X (shareSuite promise) (p_t promise) (p_n promise),
                signatures = replicate (nat (p_n promise)) None,
                blames = replicate (nat (p_n promise)) None \<rparr>)"

definition AddSignature ::
  "('su, 'pt, 'sc, 'sh, 'pl) PromiseState \<Rightarrow> int \<Rightarrow> 'su PromiseSignature option
     \<Rightarrow> ('su, 'pt, 'sc, 'sh, 'pl) PromiseState result" where
  "AddSignature ps i sig =
     (if 0 \<le> i \<and> i < int (length (signatures ps))
      then Ok (ps\<lparr> signatures := (signatures ps)[nat i := sig] \<rparr>)
      else Panic IndexOutOfRange)"

definition AddBlameProof ::
  "('su, 'pt, 'sc, 'sh, 'pl) PromiseState \<Rightarrow> int \<Rightarrow> ('su, 'pt) BlameProof option
     \<Rightarrow> ('su, 'pt, 'sc, 'sh, 'pl) PromiseState result" where
  "AddBlameProof ps i bproof =
     (if 0 \<le> i \<and> i < int (length (blames ps))
      then Ok (ps\<lparr> blames := (blames ps)[nat i := bproof] \<rparr>)
      else Panic IndexOutOfRange)"

text \<open>
  The loop of \<^verbatim>\<open>PromiseCertified\<close> over the indices still to visit, with the running
  count \<^verbatim>\<open>validSigs\<close>. It returns the final count, or the error of the first valid blame.
\<close>

fun certified_loop ::
  "('su, 'pt, 'sc, 'pp, 'sh, 'pl, 'rn) crypto \<Rightarrow> ('su, 'pt, 'sc, 'sh, 'pl) PromiseState
     \<Rightarrow> int list \<Rightarrow> int \<Rightarrow> int result" where
  "certified_loop X ps [] validSigs = Ok validSigs"
| "certified_loop X ps (i # rest) validSigs =
     rbind (go_index (signatures ps) i) (\<lambda>slot.
     rbind (case slot of
              None \<Rightarrow> Ok validSigs
            | Some sig \<Rightarrow>
                (case VerifySignature X (ps_Promise ps) i sig of
                   Ok _ \<Rightarrow> Ok (validSigs + 1)
                 | Err _ \<Rightarrow> Ok validSigs
                 | Panic q \<Rightarrow> Panic q)) (\<lambda>validSigs1.
     rbind (go_index (blames ps) i) (\<lambda>bslot.
     rbind (case bslot of
              None \<Rightarrow> Ok False
            | Some bl \<Rightarrow>
                (case VerifyBlame X (ps_Promise ps) i bl of
                   Ok _ \<Rightarrow> Ok True
                 | Err _ \<Rightarrow> Ok False
                 | Panic q \<Rightarrow> Panic q)) (\<lambda>blamed.
       if blamed then Err ValidBlameProof
       else certified_loop X ps rest validSigs1))))"

definition PromiseCertified ::
  "('su, 'pt, 'sc, 'pp, 'sh, 'pl, 'rn) crypto \<Rightarrow> ('su, 'pt, 'sc, 'sh, 'pl) PromiseState
     \<Rightarrow> 'pt \<Rightarrow> unit result" where
  "PromiseCertified X ps promiserKey =
     rbind (VerifyPromise (ps_Promise ps) promiserKey) (\<lambda>_.
     rbind (certified_loop X ps [0..p_n (ps_Promise ps) - 1] 0) (\<lambda>validSigs.
       if validSigs < p_r (ps_Promise ps) then Err NotEnoughSignatures else Ok ()))"

section \<open>The codec\<close>

subsection \<open>Buffers\<close>

text \<open>
  A buffer is a byte list whose capacity is its length. Positions and sizes are Go
  \<^verbatim>\<open>int\<close>s (64-bit, never overflowing on the sizes of a buffer in memory), so they are
  \<open>int\<close> here; a \<^verbatim>\<open>uint32\<close> is a \<open>32 word\<close>, and \<^verbatim>\<open>uint32(x)\<close> of an \<^verbatim>\<open>int\<close> wraps
  (\<open>word_of_int\<close>).
\<close>

definition make_bytes :: "int \<Rightarrow> byte list result" where
  "make_bytes len = (if len < 0 then Panic MakeLenOutOfRange else Ok (replicate (nat len) 0))"

text \<open>
  \<^verbatim>\<open>buf[lo:hi]\<close> and \<^verbatim>\<open>buf[lo:]\<close>. Go bounds \<open>hi\<close> by the capacity of \<open>buf\<close>; a buffer
  here has no spare capacity, so the bound is its length. On a buffer with spare capacity
  Go lets a slice expression read past the length, which is outside the model.
\<close>

definition go_slice :: "byte list \<Rightarrow> int \<Rightarrow> int \<Rightarrow> byte list result" where
  "go_slice buf lo hi =
     (if 0 \<le> lo \<and> lo \<le> hi \<and> hi \<le> int (length buf)
      then Ok (take (nat (hi - lo)) (drop (nat lo) buf))
      else Panic SliceOutOfRange)"

definition go_slice_from :: "byte list \<Rightarrow> int \<Rightarrow> byte list result" where
  "go_slice_from buf lo = go_slice buf lo (int (length buf))"

text \<open>
  \<^verbatim>\<open>copy(buf[pos:], src)\<close>: as many bytes as fit are copied; the buffer keeps its length.
\<close>

definition copy_at :: "byte list \<Rightarrow> int \<Rightarrow> byte list \<Rightarrow> byte list result" where
  "copy_at buf pos src =
     (if 0 \<le> pos \<and> pos \<le> int (length buf)
      then Ok (take (nat pos) buf @ take (length buf - nat pos) src
                 @ drop (nat pos + length src) buf)
      else Panic SliceOutOfRange)"

text \<open>\<^verbatim>\<open>binary.LittleEndian\<close>: the four bytes of a \<^verbatim>\<open>uint32\<close>, lowest first.\<close>

definition le_bytes :: "32 word \<Rightarrow> byte list" where
  "le_bytes v = [ucast v, ucast (drop_bit 8 v), ucast (drop_bit 16 v), ucast (drop_bit 24 v)]"

text \<open>\<^verbatim>\<open>binary.LittleEndian.PutUint32(buf[pos:], v)\<close>.\<close>

definition PutUint32 :: "byte list \<Rightarrow> int \<Rightarrow> 32 word \<Rightarrow> byte list result" where
  "PutUint32 buf pos v =
     (if pos < 0 \<or> pos > int (length buf) then Panic SliceOutOfRange
      else if int (length buf) - pos < 4 then Panic IndexOutOfRange
      else Ok (take (nat pos) buf @ le_bytes v @ drop (nat pos + 4) buf))"

text \<open>\<^verbatim>\<open>binary.LittleEndian.Uint32(b)\<close>.\<close>

definition Uint32 :: "byte list \<Rightarrow> 32 word result" where
  "Uint32 b =
     (if length b < 4 then Panic IndexOutOfRange
      else Ok (ucast (b ! 0) OR push_bit 8 (ucast (b ! 1)) OR push_bit 16 (ucast (b ! 2))
                 OR push_bit 24 (ucast (b ! 3))))"

subsection \<open>PromiseSignature\<close>

text \<open>
  \<^verbatim>\<open>UnmarshalInit\<close> on a new \<^verbatim>\<open>PromiseSignature\<close>: the suite is set and the signature is
  still nil. For a \<^verbatim>\<open>BlameProof\<close> and a \<^verbatim>\<open>Promise\<close>, which have fields without a zero value
  in the model, \<^verbatim>\<open>UnmarshalInit\<close> takes the receiver as an argument.
\<close>

definition PromiseSignature_UnmarshalInit :: "'su \<Rightarrow> 'su PromiseSignature" where
  "PromiseSignature_UnmarshalInit su = \<lparr> sig_suite = su, sig_signature = None \<rparr>"

text \<open>
  \<^verbatim>\<open>p.suite == p2.suite && reflect.DeepEqual(p, p2)\<close>: the suites are the same and the
  signatures are both nil or both non-nil with the same bytes.
\<close>

definition PromiseSignature_Equal :: "'su PromiseSignature \<Rightarrow> 'su PromiseSignature \<Rightarrow> bool" where
  "PromiseSignature_Equal p p2 \<longleftrightarrow> sig_suite p = sig_suite p2 \<and> p = p2"

definition PromiseSignature_MarshalSize :: "'su PromiseSignature \<Rightarrow> int" where
  "PromiseSignature_MarshalSize p = int uint32Size + int (length (slice_bytes (sig_signature p)))"

definition PromiseSignature_MarshalBinary :: "'su PromiseSignature \<Rightarrow> byte list result" where
  "PromiseSignature_MarshalBinary p =
     rbind (make_bytes (PromiseSignature_MarshalSize p)) (\<lambda>buf.
     rbind (PutUint32 buf 0 (of_nat (length (slice_bytes (sig_signature p))))) (\<lambda>buf.
     copy_at buf (int uint32Size) (slice_bytes (sig_signature p))))"

definition PromiseSignature_UnmarshalBinary ::
  "'su PromiseSignature \<Rightarrow> byte list \<Rightarrow> 'su PromiseSignature result" where
  "PromiseSignature_UnmarshalBinary p buf =
     (if int (length buf) < int uint32Size then Err BufferTooSmall
      else rbind (Uint32 buf) (\<lambda>w.
        let sigLen = uint w in
        if int (length buf) < int uint32Size + sigLen then Err BufferTooSmall
        else rbind (go_slice buf (int uint32Size) (int uint32Size + sigLen)) (\<lambda>s.
          Ok (p\<lparr> sig_signature := Some s \<rparr>))))"

subsection \<open>BlameProof\<close>

text \<open>
  An unmarshalling function updates its receiver field by field; when it returns an
  error the fields it had already set stay set in Go. The model returns the receiver only
  on success.
\<close>

definition BlameProof_UnmarshalInit :: "('su, 'pt) BlameProof \<Rightarrow> 'su \<Rightarrow> ('su, 'pt) BlameProof" where
  "BlameProof_UnmarshalInit bp su = bp\<lparr> bp_suite := su \<rparr>"

definition BlameProof_Equal :: "('su, 'pt) BlameProof \<Rightarrow> ('su, 'pt) BlameProof \<Rightarrow> bool" where
  "BlameProof_Equal bp bp2 \<longleftrightarrow>
     bp_suite bp = bp_suite bp2 \<and> diffieKey bp = diffieKey bp2 \<and>
     diffieKeyProof bp = diffieKeyProof bp2 \<and>
     PromiseSignature_Equal (bp_signature bp) (bp_signature bp2)"

definition BlameProof_MarshalSize ::
  "('su, 'pt, 'sc, 'pp, 'sh, 'pl, 'rn) crypto \<Rightarrow> ('su, 'pt) BlameProof \<Rightarrow> int" where
  "BlameProof_MarshalSize X bp =
     2 * int uint32Size + int (PointLen X (bp_suite bp))
       + int (length (slice_bytes (diffieKeyProof bp)))
       + PromiseSignature_MarshalSize (bp_signature bp)"

definition BlameProof_MarshalBinary ::
  "('su, 'pt, 'sc, 'pp, 'sh, 'pl, 'rn) crypto \<Rightarrow> ('su, 'pt) BlameProof \<Rightarrow> byte list result" where
  "BlameProof_MarshalBinary X bp =
     (let pointLen = int (PointLen X (bp_suite bp));
          proofLen = int (length (slice_bytes (diffieKeyProof bp)))
      in
      rbind (make_bytes (BlameProof_MarshalSize X bp)) (\<lambda>buf.
      rbind (PutUint32 buf 0 (word_of_int proofLen)) (\<lambda>buf.
      rbind (PutUint32 buf (int uint32Size)
               (word_of_int (PromiseSignature_MarshalSize (bp_signature bp)))) (\<lambda>buf.
      case Point_MarshalBinary X (diffieKey bp) of
        None \<Rightarrow> Err PointEncodingError
      | Some pointBuf \<Rightarrow>
          rbind (copy_at buf (2 * int uint32Size) pointBuf) (\<lambda>buf.
          rbind (copy_at buf (2 * int uint32Size + pointLen)
                   (slice_bytes (diffieKeyProof bp))) (\<lambda>buf.
          rbind (PromiseSignature_MarshalBinary (bp_signature bp)) (\<lambda>sigBuf.
          copy_at buf (2 * int uint32Size + pointLen + proofLen) sigBuf)))))))"

definition BlameProof_UnmarshalBinary ::
  "('su, 'pt, 'sc, 'pp, 'sh, 'pl, 'rn) crypto \<Rightarrow> ('su, 'pt) BlameProof \<Rightarrow> byte list
     \<Rightarrow> ('su, 'pt) BlameProof result" where
  "BlameProof_UnmarshalBinary X bp buf =
     (let pointLen = int (PointLen X (bp_suite bp)) in
      if int (length buf) < 2 * int uint32Size + pointLen then Err BufferTooSmall
      else
        rbind (Uint32 buf) (\<lambda>w1.
        rbind (go_slice_from buf (int uint32Size)) (\<lambda>rest.
        rbind (Uint32 rest) (\<lambda>w2.
          let proofLen = uint w1; sigLen = uint w2; bufPos = 2 * int uint32Size in
          rbind (go_slice buf bufPos (bufPos + pointLen)) (\<lambda>pointBuf.
          case Point_UnmarshalBinary X (bp_suite bp) pointBuf of
            None \<Rightarrow> Err PointEncodingError
          | Some dk \<Rightarrow>
              let bufPos = bufPos + pointLen in
              if int (length buf) < 2 * int uint32Size + pointLen + proofLen + sigLen
              then Err BufferTooSmall
              else
                rbind (go_slice buf bufPos (bufPos + proofLen)) (\<lambda>prf.
                  let bufPos = bufPos + proofLen in
                  rbind (go_slice buf bufPos (bufPos + sigLen)) (\<lambda>sigBuf.
                  rbind (PromiseSignature_UnmarshalBinary
                           (PromiseSignature_UnmarshalInit (bp_suite bp)) sigBuf) (\<lambda>sig.
                    Ok (bp\<lparr> diffieKey := dk, diffieKeyProof := Some prf,
                             bp_signature := sig \<rparr>)))))))))"

subsection \<open>Promise\<close>

text \<open>
  The loop of \<^verbatim>\<open>Equal\<close> over the indices still to compare: \<open>False\<close> at the first index
  where the secrets or the insurers differ.
\<close>

fun equal_loop ::
  "('su, 'pt, 'sc, 'pl) Promise \<Rightarrow> ('su, 'pt, 'sc, 'pl) Promise \<Rightarrow> int list \<Rightarrow> bool result" where
  "equal_loop p p2 [] = Ok True"
| "equal_loop p p2 (i # rest) =
     rbind (go_index (secrets p) i) (\<lambda>s.
     rbind (go_index (secrets p2) i) (\<lambda>s2.
       if s \<noteq> s2 then Ok False
       else
         rbind (go_index (insurers p) i) (\<lambda>k.
         rbind (go_index (insurers p2) i) (\<lambda>k2.
           if k \<noteq> k2 then Ok False else equal_loop p p2 rest))))"

definition Promise_Equal ::
  "('su, 'pt, 'sc, 'pp, 'sh, 'pl, 'rn) crypto \<Rightarrow> ('su, 'pt, 'sc, 'pl) Promise
     \<Rightarrow> ('su, 'pt, 'sc, 'pl) Promise \<Rightarrow> bool result" where
  "Promise_Equal X p p2 =
     (if p_n p \<noteq> p_n p2 then Ok False
      else rbind (equal_loop p p2 [0..p_n p - 1]) (\<lambda>same.
        if \<not> same then Ok False
        else Ok (shareSuite p = shareSuite p2 \<and> p_t p = p_t p2 \<and> p_r p = p_r p2 \<and>
                 p_n p = p_n p2 \<and> pubKey p = pubKey p2 \<and>
                 PubPoly_Equal X (pubPoly p) (pubPoly p2))))"

definition Promise_UnmarshalInit ::
  "('su, 'pt, 'sc, 'pl) Promise \<Rightarrow> 'su \<Rightarrow> ('su, 'pt, 'sc, 'pl) Promise" where
  "Promise_UnmarshalInit p su = p\<lparr> shareSuite := su \<rparr>"

definition Promise_MarshalSize ::
  "('su, 'pt, 'sc, 'pp, 'sh, 'pl, 'rn) crypto \<Rightarrow> ('su, 'pt, 'sc, 'pl) Promise \<Rightarrow> int" where
  "Promise_MarshalSize X p =
     3 * int uint32Size + int (PointLen X (shareSuite p))
       + int (PubPoly_MarshalSize X (pubPoly p))
       + p_n p * int (PointLen X (shareSuite p)) + p_n p * int (SecretLen X (shareSuite p))"

text \<open>
  The two loops of \<^verbatim>\<open>MarshalBinary\<close>, over the insurers and over the secrets from index
  \<open>i\<close> on: element \<open>i\<close> is copied to \<open>bufPos + i * len\<close>.
\<close>

fun marshal_insurers ::
  "('su, 'pt, 'sc, 'pp, 'sh, 'pl, 'rn) crypto \<Rightarrow> byte list \<Rightarrow> int \<Rightarrow> int \<Rightarrow> 'pt list \<Rightarrow> int
     \<Rightarrow> byte list result" where
  "marshal_insurers X buf bufPos pointLen [] i = Ok buf"
| "marshal_insurers X buf bufPos pointLen (k # rest) i =
     (case Point_MarshalBinary X k of
        None \<Rightarrow> Err PointEncodingError
      | Some pb \<Rightarrow>
          rbind (copy_at buf (bufPos + i * pointLen) pb) (\<lambda>buf.
            marshal_insurers X buf bufPos pointLen rest (i + 1)))"

fun marshal_secrets ::
  "('su, 'pt, 'sc, 'pp, 'sh, 'pl, 'rn) crypto \<Rightarrow> byte list \<Rightarrow> int \<Rightarrow> int \<Rightarrow> 'sc list \<Rightarrow> int
     \<Rightarrow> byte list result" where
  "marshal_secrets X buf bufPos secretLen [] i = Ok buf"
| "marshal_secrets X buf bufPos secretLen (s # rest) i =
     (case Secret_MarshalBinary X s of
        None \<Rightarrow> Err SecretEncodingError
      | Some pb \<Rightarrow>
          rbind (copy_at buf (bufPos + i * secretLen) pb) (\<lambda>buf.
            marshal_secrets X buf bufPos secretLen rest (i + 1)))"

definition Promise_MarshalBinary ::
  "('su, 'pt, 'sc, 'pp, 'sh, 'pl, 'rn) crypto \<Rightarrow> ('su, 'pt, 'sc, 'pl) Promise
     \<Rightarrow> byte list result" where
  "Promise_MarshalBinary X p =
     rbind (make_bytes (Promise_MarshalSize X p)) (\<lambda>buf.
       let pointLen = int (PointLen X (shareSuite p));
           polyLen = int (PubPoly_MarshalSize X (pubPoly p));
           secretLen = int (SecretLen X (shareSuite p))
       in
       rbind (PutUint32 buf 0 (word_of_int (p_n p))) (\<lambda>buf.
       rbind (PutUint32 buf (int uint32Size) (word_of_int (p_t p))) (\<lambda>buf.
       rbind (PutUint32 buf (2 * int uint32Size) (word_of_int (p_r p))) (\<lambda>buf.
       case Point_MarshalBinary X (pubKey p) of
         None \<Rightarrow> Err PointEncodingError
       | Some pointBuf \<Rightarrow>
           rbind (copy_at buf (3 * int uint32Size) pointBuf) (\<lambda>buf.
           case PubPoly_MarshalBinary X (pubPoly p) of
             None \<Rightarrow> Err PolyEncodingError
           | Some polyBuf \<Rightarrow>
               rbind (copy_at buf (3 * int uint32Size + pointLen) polyBuf) (\<lambda>buf.
                 let bufPos = 3 * int uint32Size + pointLen + polyLen in
                 rbind (marshal_insurers X buf bufPos pointLen (insurers p) 0) (\<lambda>buf.
                   let bufPos = bufPos + p_n p * pointLen in
                   marshal_secrets X buf bufPos secretLen (secrets p) 0)))))))"

text \<open>
  The two loops of \<^verbatim>\<open>UnmarshalBinary\<close>, over the indices still to decode: element \<open>i\<close> is
  read from \<open>buf[bufPos + i * len : bufPos + i * len + len]\<close>.
\<close>

fun unmarshal_insurers ::
  "('su, 'pt, 'sc, 'pp, 'sh, 'pl, 'rn) crypto \<Rightarrow> 'su \<Rightarrow> byte list \<Rightarrow> int \<Rightarrow> int \<Rightarrow> int list
     \<Rightarrow> 'pt list result" where
  "unmarshal_insurers X su buf bufPos pointLen [] = Ok []"
| "unmarshal_insurers X su buf bufPos pointLen (i # rest) =
     (let start = bufPos + i * pointLen; stop = start + pointLen in
      rbind (go_slice buf start stop) (\<lambda>b.
        case Point_UnmarshalBinary X su b of
          None \<Rightarrow> Err PointEncodingError
        | Some k \<Rightarrow>
            rbind (unmarshal_insurers X su buf bufPos pointLen rest) (\<lambda>ks. Ok (k # ks))))"

fun unmarshal_secrets ::
  "('su, 'pt, 'sc, 'pp, 'sh, 'pl, 'rn) crypto \<Rightarrow> 'su \<Rightarrow> byte list \<Rightarrow> int \<Rightarrow> int \<Rightarrow> int list
     \<Rightarrow> 'sc list result" where
  "unmarshal_secrets X su buf bufPos secretLen [] = Ok []"
| "unmarshal_secrets X su buf bufPos secretLen (i # rest) =
     (let start = bufPos + i * secretLen; stop = start + secretLen in
      rbind (go_slice buf start stop) (\<lambda>b.
        case Secret_UnmarshalBinary X su b of
          None \<Rightarrow> Err SecretEncodingError
        | Some s \<Rightarrow>
            rbind (unmarshal_secrets X su buf bufPos secretLen rest) (\<lambda>ss. Ok (s # ss))))"

definition Promise_UnmarshalBinary ::
  "('su, 'pt, 'sc, 'pp, 'sh, 'pl, 'rn) crypto \<Rightarrow> ('su, 'pt, 'sc, 'pl) Promise \<Rightarrow> byte list
     \<Rightarrow> ('su, 'pt, 'sc, 'pl) Promise result" where
  "Promise_UnmarshalBinary X p buf =
     (let pointLen = int (PointLen X (shareSuite p));
          secretLen = int (SecretLen X (shareSuite p))
      in
      rbind (Uint32 buf) (\<lambda>wn.
      rbind (go_slice_from buf (int uint32Size)) (\<lambda>rest1.
      rbind (Uint32 rest1) (\<lambda>wt.
      rbind (go_slice_from buf (2 * int uint32Size)) (\<lambda>rest2.
      rbind (Uint32 rest2) (\<lambda>wr.
        let n = uint wn; t = uint wt; r = uint wr; bufPos = 3 * int uint32Size in
        rbind (go_slice buf bufPos (bufPos + pointLen)) (\<lambda>pointBuf.
        case Point_UnmarshalBinary X (shareSuite p) pointBuf of
          None \<Rightarrow> Err PointEncodingError
        | Some pk \<Rightarrow>
            let bufPos = bufPos + pointLen;
                poly0 = PubPoly_Init X (shareSuite p) t;
                polyLen = int (PubPoly_MarshalSize X poly0)
            in
            rbind (go_slice buf bufPos (bufPos + polyLen)) (\<lambda>polyBuf.
            case PubPoly_UnmarshalBinary X poly0 polyBuf of
              None \<Rightarrow> Err PolyEncodingError
            | Some poly \<Rightarrow>
                let bufPos = bufPos + polyLen in
                rbind (unmarshal_insurers X (shareSuite p) buf bufPos pointLen [0..n - 1])
                  (\<lambda>ins.
                  let bufPos = bufPos + n * pointLen in
                  rbind (unmarshal_secrets X (shareSuite p) buf bufPos secretLen [0..n - 1])
                    (\<lambda>secs.
                    Ok (p\<lparr> p_t := t, p_r := r, p_n := n, pubKey := pk, pubPoly := poly,
                            insurers := ins, secrets := secs \<rparr>)))))))))))"

section \<open>What is assumed of the external collaborators\<close>

text \<open>
  Each property below is a contract of an imported package that a theorem may take as a
  hypothesis; none is assumed globally. A key pair is honest when its public key is the
  base raised to its secret, in its own suite (\<^verbatim>\<open>KeyPair.Gen\<close>).
\<close>

definition honest_key ::
  "('su, 'pt, 'sc, 'pp, 'sh, 'pl, 'rn) crypto \<Rightarrow> ('su, 'pt, 'sc) KeyPair \<Rightarrow> bool" where
  "honest_key X kp \<longleftrightarrow>
     Public kp = Point_Mul X (Suite kp) (Point_Base X (Suite kp)) (Secret kp)"

text \<open>Subtracting a scalar undoes adding it.\<close>

definition scalar_laws :: "('su, 'pt, 'sc, 'pp, 'sh, 'pl, 'rn) crypto \<Rightarrow> bool" where
  "scalar_laws X \<longleftrightarrow> (\<forall>su a b. Secret_Sub X su (Secret_Add X su a b) b = a)"

text \<open>Diffie-Hellman agreement: scalar multiplications of the base commute.\<close>

definition dh_laws :: "('su, 'pt, 'sc, 'pp, 'sh, 'pl, 'rn) crypto \<Rightarrow> bool" where
  "dh_laws X \<longleftrightarrow>
     (\<forall>su a b. Point_Mul X su (Point_Mul X su (Point_Base X su) a) b
                = Point_Mul X su (Point_Mul X su (Point_Base X su) b) a)"

text \<open>Marshalling a point never fails.\<close>

definition marshal_total :: "('su, 'pt, 'sc, 'pp, 'sh, 'pl, 'rn) crypto \<Rightarrow> bool" where
  "marshal_total X \<longleftrightarrow> (\<forall>P. Point_MarshalBinary X P \<noteq> None)"

text \<open>
  The polynomial library: share \<open>i\<close> of a split of a private polynomial passes the check
  of that polynomial's commitment at index \<open>i\<close>.
\<close>

definition poly_laws :: "('su, 'pt, 'sc, 'pp, 'sh, 'pl, 'rn) crypto \<Rightarrow> bool" where
  "poly_laws X \<longleftrightarrow>
     (\<forall>pp n i. 0 \<le> i \<and> i < n \<longrightarrow>
        PubPoly_Check X (PubPoly_Commit X pp) i (PriShares_Share X (PriShares_Split X pp n) i))"

text \<open>
  Modelled from the spec: \<^verbatim>\<open>poly.PriPoly.Pick\<close> is not part of \<^verbatim>\<open>promise.go\<close>. The spec
  has it pick "a random degree-(t-1) private polynomial with constant term" the secret,
  committed to coefficient by coefficient, \<open>t\<close> of them. A polynomial with a constant
  term has at least one coefficient, so a library that keeps to this returns none for
  \<open>t < 1\<close>.
\<close>

definition pick_laws :: "('su, 'pt, 'sc, 'pp, 'sh, 'pl, 'rn) crypto \<Rightarrow> bool" where
  "pick_laws X \<longleftrightarrow> (\<forall>su t s rnd. t < 1 \<longrightarrow> PriPoly_Pick X su t s rnd = None)"

text \<open>
  The anonymous-set signature with a one-key ring. Completeness: a signature by the
  secret of the ring's key verifies over the same message and ring.
\<close>

definition anon_complete :: "('su, 'pt, 'sc, 'pp, 'sh, 'pl, 'rn) crypto \<Rightarrow> bool" where
  "anon_complete X \<longleftrightarrow>
     (\<forall>su rnd msg x.
        anon_Verify X su msg [Point_Mul X su (Point_Base X su) x]
          (anon_Sign X su rnd msg [Point_Mul X su (Point_Base X su) x] 0 x))"


text \<open>
  The proof framework, completeness: for \<open>D = x \<cdot> P\<close> the prover returns a proof that
  the verifier accepts for the same \<open>D\<close> and \<open>P\<close>.
\<close>

definition proof_complete :: "('su, 'pt, 'sc, 'pp, 'sh, 'pl, 'rn) crypto \<Rightarrow> bool" where
  "proof_complete X \<longleftrightarrow>
     (\<forall>su rnd x P. \<exists>prf.
        proof_HashProve X su protocolName rnd x (Point_Mul X su P x) P = Some prf \<and>
        proof_HashVerify X su protocolName (Point_Mul X su P x) P prf)"

text \<open>
  The codecs of the external packages. A point (a secret) round-trips when marshalling it
  gives as many bytes as the suite's point (secret) length and unmarshalling them in that
  suite gives it back. A public polynomial round-trips for a threshold \<open>t\<close> when
  marshalling it gives as many bytes as its marshal size, a polynomial initialised for \<open>t\<close>
  has the same marshal size, and unmarshalling the bytes into such a polynomial gives one
  that is \<^verbatim>\<open>Equal\<close> to it and checks the same shares.
\<close>

definition point_codec :: "('su, 'pt, 'sc, 'pp, 'sh, 'pl, 'rn) crypto \<Rightarrow> 'su \<Rightarrow> 'pt \<Rightarrow> bool" where
  "point_codec X su P \<longleftrightarrow>
     (\<exists>b. Point_MarshalBinary X P = Some b \<and> length b = PointLen X su \<and>
          Point_UnmarshalBinary X su b = Some P)"

definition secret_codec :: "('su, 'pt, 'sc, 'pp, 'sh, 'pl, 'rn) crypto \<Rightarrow> 'su \<Rightarrow> 'sc \<Rightarrow> bool" where
  "secret_codec X su s \<longleftrightarrow>
     (\<exists>b. Secret_MarshalBinary X s = Some b \<and> length b = SecretLen X su \<and>
          Secret_UnmarshalBinary X su b = Some s)"

definition poly_codec ::
  "('su, 'pt, 'sc, 'pp, 'sh, 'pl, 'rn) crypto \<Rightarrow> 'su \<Rightarrow> int \<Rightarrow> 'pl \<Rightarrow> bool" where
  "poly_codec X su t pl \<longleftrightarrow>
     (\<exists>b pl'. PubPoly_MarshalBinary X pl = Some b \<and> length b = PubPoly_MarshalSize X pl \<and>
          PubPoly_MarshalSize X (PubPoly_Init X su t) = PubPoly_MarshalSize X pl \<and>
          PubPoly_UnmarshalBinary X (PubPoly_Init X su t) b = Some pl' \<and>
          PubPoly_Equal X pl pl' \<and>
          (\<forall>i s. PubPoly_Check X pl' i s = PubPoly_Check X pl i s))"

section \<open>Fully populated instances and honestly constructed promises\<close>

text \<open>
  Fully populated instances. A signature is populated when its bytes are not nil and
  fewer than \<open>2^32\<close> (the length prefix is a \<^verbatim>\<open>uint32\<close>). A blame proof is populated when its
  proof is not nil and shorter than \<open>2^32\<close>, its signature is populated with a marshal size
  below \<open>2^32\<close> and carries the blame proof's own suite, and its key round-trips. A promise is
  populated when \<open>n\<close>, \<open>t\<close> and \<open>r\<close> fit a \<^verbatim>\<open>uint32\<close>, it has \<open>n\<close> insurers and \<open>n\<close>
  secrets, and its points, secrets and public polynomial round-trip in its suite.
\<close>

definition populated_signature :: "'su PromiseSignature \<Rightarrow> bool" where
  "populated_signature x =
     (case sig_signature x of None \<Rightarrow> False | Some s \<Rightarrow> length s < 2 ^ 32)"

definition populated_blame ::
  "('su, 'pt, 'sc, 'pp, 'sh, 'pl, 'rn) crypto \<Rightarrow> ('su, 'pt) BlameProof \<Rightarrow> bool" where
  "populated_blame X x \<longleftrightarrow>
     (case diffieKeyProof x of None \<Rightarrow> False | Some zk \<Rightarrow> length zk < 2 ^ 32) \<and>
     (case sig_signature (bp_signature x) of None \<Rightarrow> False | Some s \<Rightarrow> 4 + length s < 2 ^ 32) \<and>
     sig_suite (bp_signature x) = bp_suite x \<and>
     point_codec X (bp_suite x) (diffieKey x)"

definition populated_promise ::
  "('su, 'pt, 'sc, 'pp, 'sh, 'pl, 'rn) crypto \<Rightarrow> ('su, 'pt, 'sc, 'pl) Promise \<Rightarrow> bool" where
  "populated_promise X p \<longleftrightarrow>
     0 \<le> p_n p \<and> p_n p < 2 ^ 32 \<and> 0 \<le> p_t p \<and> p_t p < 2 ^ 32 \<and> 0 \<le> p_r p \<and> p_r p < 2 ^ 32 \<and>
     int (length (insurers p)) = p_n p \<and> int (length (secrets p)) = p_n p \<and>
     point_codec X (shareSuite p) (pubKey p) \<and>
     (\<forall>k \<in> set (insurers p). point_codec X (shareSuite p) k) \<and>
     (\<forall>s \<in> set (secrets p). secret_codec X (shareSuite p) s) \<and>
     poly_codec X (shareSuite p) (p_t p) (pubPoly p)"

text \<open>
  An honestly constructed promise: the external packages keep the contracts that
  construction and share verification rest on, the promiser's and the insurers' key pairs are
  honest and of the suite of the shared secret, and \<open>p\<close> is what \<open>ConstructPromise\<close> returned
  for them.
\<close>

definition honest_promise ::
  "('su, 'pt, 'sc, 'pp, 'sh, 'pl, 'rn) crypto \<Rightarrow> ('su, 'pt, 'sc) KeyPair \<Rightarrow> ('su, 'pt, 'sc) KeyPair
     \<Rightarrow> ('su, 'pt, 'sc) KeyPair list \<Rightarrow> int \<Rightarrow> int \<Rightarrow> 'rn \<Rightarrow> ('su, 'pt, 'sc, 'pl) Promise \<Rightarrow> bool" where
  "honest_promise X secret keyPair kps t r rnd p \<longleftrightarrow>
     scalar_laws X \<and> dh_laws X \<and> marshal_total X \<and> poly_laws X \<and>
     honest_key X keyPair \<and> Suite keyPair = Suite secret \<and>
     (\<forall>kp \<in> set kps. honest_key X kp \<and> Suite kp = Suite secret) \<and>
     ConstructPromise X secret keyPair t r (map Public kps) rnd = Ok p"

section \<open>Valid slots of a promise state\<close>

text \<open>
  Slot \<open>i\<close> of a state holds a valid signature when it is not nil and \<open>VerifySignature\<close> at
  \<open>i\<close> returns nil on it, and a valid blame when it is not nil and \<open>VerifyBlame\<close> at \<open>i\<close>
  returns nil on it. \<open>count_valid_signatures\<close> counts the indices of \<open>[0, n)\<close> that hold a
  valid signature. A state is well formed when it has \<open>n\<close> signature slots and \<open>n\<close> blame
  slots, as \<open>Init\<close> allocates them.
\<close>

definition valid_signature_at ::
  "('su, 'pt, 'sc, 'pp, 'sh, 'pl, 'rn) crypto \<Rightarrow> ('su, 'pt, 'sc, 'sh, 'pl) PromiseState \<Rightarrow> int
     \<Rightarrow> bool" where
  "valid_signature_at X ps i =
     (case go_index (signatures ps) i of
        Ok (Some sig) \<Rightarrow> VerifySignature X (ps_Promise ps) i sig = Ok ()
      | _ \<Rightarrow> False)"

definition valid_blame_at ::
  "('su, 'pt, 'sc, 'pp, 'sh, 'pl, 'rn) crypto \<Rightarrow> ('su, 'pt, 'sc, 'sh, 'pl) PromiseState \<Rightarrow> int
     \<Rightarrow> bool" where
  "valid_blame_at X ps i =
     (case go_index (blames ps) i of
        Ok (Some bl) \<Rightarrow> VerifyBlame X (ps_Promise ps) i bl = Ok ()
      | _ \<Rightarrow> False)"

definition count_valid_signatures ::
  "('su, 'pt, 'sc, 'pp, 'sh, 'pl, 'rn) crypto \<Rightarrow> ('su, 'pt, 'sc, 'sh, 'pl) PromiseState \<Rightarrow> int" where
  "count_valid_signatures X ps =
     int (length (filter (valid_signature_at X ps) [0..p_n (ps_Promise ps) - 1]))"

definition some_valid_blame ::
  "('su, 'pt, 'sc, 'pp, 'sh, 'pl, 'rn) crypto \<Rightarrow> ('su, 'pt, 'sc, 'sh, 'pl) PromiseState \<Rightarrow> bool" where
  "some_valid_blame X ps = list_ex (valid_blame_at X ps) [0..p_n (ps_Promise ps) - 1]"

definition wf_state :: "('su, 'pt, 'sc, 'sh, 'pl) PromiseState \<Rightarrow> bool" where
  "wf_state ps \<longleftrightarrow>
     int (length (signatures ps)) = p_n (ps_Promise ps) \<and>
     int (length (blames ps)) = p_n (ps_Promise ps)"

section \<open>A small instance of the external collaborators\<close>

text \<open>
  An instance on which the hypotheses above hold, used to evaluate the functions on
  concrete inputs. Points and scalars are the integers modulo 256 with the base 1 and
  \<open>P \<cdot> s = P * s\<close>; a point or scalar is encoded as its one byte. A private polynomial is
  its coefficient list (the secret first, then \<open>t - 1\<close> coefficients from the random
  input; none is picked for \<open>t < 1\<close>), share \<open>i\<close> is its value at \<open>i + 1\<close>, and the
  commitment of coefficient \<open>a\<close> is
  \<open>1 \<cdot> a\<close>. A signature is an injective encoding of the message and the ring; a proof
  for \<open>D = x \<cdot> P\<close> is \<open>x\<close> itself. It has no cryptographic strength and needs none.
\<close>

definition toy_eval :: "byte list \<Rightarrow> byte \<Rightarrow> byte" where
  "toy_eval cs x = foldr (\<lambda>a acc. a + x * acc) cs 0"

definition toy_enc :: "byte list \<Rightarrow> byte list \<Rightarrow> byte list" where
  "toy_enc msg ring = concat (map (\<lambda>b. [1, b]) msg) @ [0] @ ring"

definition toy_decode1 :: "byte list \<Rightarrow> byte option" where
  "toy_decode1 bs = (case bs of [b] \<Rightarrow> Some b | _ \<Rightarrow> None)"

definition toy :: "(nat, byte, byte, byte list, byte list, byte list, byte list) crypto" where
  "toy = \<lparr>
     PointLen = (\<lambda>su. 1),
     SecretLen = (\<lambda>su. 1),
     Point_Base = (\<lambda>su. 1),
     Point_Mul = (\<lambda>su P s. P * s),
     Point_MarshalBinary = (\<lambda>P. Some [P]),
     Point_UnmarshalBinary = (\<lambda>su bs. toy_decode1 bs),
     Secret_Pick = (\<lambda>su seed. sum_list seed),
     Secret_Add = (\<lambda>su a b. a + b),
     Secret_Sub = (\<lambda>su a b. a - b),
     Secret_MarshalBinary = (\<lambda>s. Some [s]),
     Secret_UnmarshalBinary = (\<lambda>su bs. toy_decode1 bs),
     PriPoly_Pick = (\<lambda>su t s0 rnd. if t < 1 then None else Some (s0 # take (nat t - 1) rnd)),
     PriShares_Split = (\<lambda>pp n. map (\<lambda>i. toy_eval pp (of_nat (i + 1))) [0..<nat n]),
     PriShares_Share = (\<lambda>sh i. sh ! nat i),
     PriShares_Empty = (\<lambda>su t n. replicate (nat n) 0),
     PubPoly_Commit = (\<lambda>pp. pp),
     PubPoly_Init = (\<lambda>su t. replicate (nat t) 0),
     PubPoly_Check = (\<lambda>pl i s. s = toy_eval pl (of_int (i + 1))),
     PubPoly_Equal = (\<lambda>pl pl2. pl = pl2),
     PubPoly_MarshalSize = (\<lambda>pl. length pl),
     PubPoly_MarshalBinary = (\<lambda>pl. Some pl),
     PubPoly_UnmarshalBinary = (\<lambda>pl bs. if length bs = length pl then Some bs else None),
     anon_Sign = (\<lambda>su rnd msg ring mine x. toy_enc msg ring),
     anon_Verify = (\<lambda>su msg ring sig. sig = toy_enc msg ring),
     proof_HashProve = (\<lambda>su name rnd x D P. Some [x]),
     proof_HashVerify = (\<lambda>su name D P prf. case toy_decode1 prf of None \<Rightarrow> False | Some x \<Rightarrow> D = P * x)
   \<rparr>"

definition toy_key :: "byte \<Rightarrow> (nat, byte, byte) KeyPair" where
  "toy_key s = \<lparr> Suite = 0, Public = 1 * s, Secret = s \<rparr>"

text \<open>
  The promise that \<open>ConstructPromise\<close> builds on this instance for the secret 5, the promiser's
  key 3, \<open>t = r = 2\<close>, three insurers with the keys 7, 11 and 13, and the random
  coefficient 9: the polynomial is \<open>5 + 9 x\<close>, the shares are 14, 23 and 32.
\<close>

definition toy_insurers :: "(nat, byte, byte) KeyPair list" where
  "toy_insurers = [toy_key 7, toy_key 11, toy_key 13]"

definition toy_promise :: "(nat, byte, byte, byte list) Promise" where
  "toy_promise = \<lparr> shareSuite = 0, p_t = 2, p_r = 2, p_n = 3, pubKey = 3, pubPoly = [5, 9],
                   insurers = [7, 11, 13], secrets = [35, 56, 71] \<rparr>"

text \<open>
  A state of that promise. Slots 0 and 1 hold the endorsements of insurers 0 and 1; slot 2
  holds insurer 0's endorsement, which is not valid there; slot 0 also holds insurer 0's
  blame, which is not justified, the share being good.
\<close>

definition toy_blame :: "(nat, byte) BlameProof" where
  "toy_blame = \<lparr> bp_suite = 0, diffieKey = 21, diffieKeyProof = Some [7],
                 bp_signature = \<lparr> sig_suite = 0, sig_signature = Some (toy_enc sigBlameMsg [7]) \<rparr> \<rparr>"

definition toy_state :: "(nat, byte, byte, byte list, byte list) PromiseState" where
  "toy_state = \<lparr> ps_Promise = toy_promise, ps_PriShares = [0, 0, 0],
                 signatures = [Some (Sign toy toy_promise 0 (toy_key 7) []),
                               Some (Sign toy toy_promise 1 (toy_key 11) []),
                               Some (Sign toy toy_promise 0 (toy_key 7) [])],
                 blames = [Some toy_blame, None, None] \<rparr>"

text \<open>
  The blame proof that \<open>Blame\<close> returns on that promise for a key pair of suite 1, while the
  promise's share suite is 0: the blame proof carries suite 0 and its signature suite 1.
\<close>

definition toy_mixed_blame :: "(nat, byte) BlameProof" where
  "toy_mixed_blame = \<lparr> bp_suite = 0, diffieKey = 21, diffieKeyProof = Some [7],
                       bp_signature = \<lparr> sig_suite = 1, sig_signature = Some (toy_enc sigBlameMsg [7]) \<rparr> \<rparr>"

text \<open>
  The same instance with a polynomial library that returns for every threshold: below 1 it
  returns the constant polynomial.
\<close>

definition toy_lenient :: "(nat, byte, byte, byte list, byte list, byte list, byte list) crypto" where
  "toy_lenient = toy \<lparr> PriPoly_Pick := (\<lambda>su t s0 rnd. Some (s0 # take (nat t - 1) rnd)) \<rparr>"





section \<open>Basic facts\<close>

lemma rbind_Ok [simp]: "rbind (Ok x) f = f x"
  and rbind_Err [simp]: "rbind (Err e) f = Err e"
  and rbind_Panic [simp]: "rbind (Panic q) f = Panic q"
  by (simp_all add: rbind_def)

lemma toy_sel [simp]:
  "PointLen toy = (\<lambda>su. 1)" "SecretLen toy = (\<lambda>su. 1)" "Point_Base toy = (\<lambda>su. 1)"
  "Point_Mul toy = (\<lambda>su P s. P * s)" "Point_MarshalBinary toy = (\<lambda>P. Some [P])"
  "Point_UnmarshalBinary toy = (\<lambda>su bs. toy_decode1 bs)"
  "Secret_Pick toy = (\<lambda>su seed. sum_list seed)"
  "Secret_Add toy = (\<lambda>su a b. a + b)" "Secret_Sub toy = (\<lambda>su a b. a - b)"
  "Secret_MarshalBinary toy = (\<lambda>s. Some [s])"
  "Secret_UnmarshalBinary toy = (\<lambda>su bs. toy_decode1 bs)"
  "PriPoly_Pick toy = (\<lambda>su t s0 rnd. if t < 1 then None else Some (s0 # take (nat t - 1) rnd))"
  "PriShares_Split toy = (\<lambda>pp n. map (\<lambda>i. toy_eval pp (of_nat (i + 1))) [0..<nat n])"
  "PriShares_Share toy = (\<lambda>sh i. sh ! nat i)"
  "PriShares_Empty toy = (\<lambda>su t n. replicate (nat n) 0)"
  "PubPoly_Commit toy = (\<lambda>pp. pp)"
  "PubPoly_Init toy = (\<lambda>su t. replicate (nat t) 0)"
  "PubPoly_Check toy = (\<lambda>pl i s. s = toy_eval pl (of_int (i + 1)))"
  "PubPoly_Equal toy = (\<lambda>pl pl2. pl = pl2)"
  "PubPoly_MarshalSize toy = (\<lambda>pl. length pl)"
  "PubPoly_MarshalBinary toy = (\<lambda>pl. Some pl)"
  "PubPoly_UnmarshalBinary toy = (\<lambda>pl bs. if length bs = length pl then Some bs else None)"
  "anon_Sign toy = (\<lambda>su rnd msg ring mine x. toy_enc msg ring)"
  "anon_Verify toy = (\<lambda>su msg ring sig. sig = toy_enc msg ring)"
  "proof_HashProve toy = (\<lambda>su name rnd x D P. Some [x])"
  "proof_HashVerify toy = (\<lambda>su name D P prf. case toy_decode1 prf of None \<Rightarrow> False | Some x \<Rightarrow> D = P * x)"
  by (simp_all add: toy_def)

lemma toy_scalar_laws: "scalar_laws toy"
  by (simp add: scalar_laws_def)

lemma toy_dh_laws: "dh_laws toy"
  by (simp add: dh_laws_def mult.commute)

lemma toy_marshal_total: "marshal_total toy"
  by (simp add: marshal_total_def)

lemma toy_poly_laws: "poly_laws toy"
  by (auto simp add: poly_laws_def nat_add_distrib add.commute)

lemma toy_anon_complete: "anon_complete toy"
  by (simp add: anon_complete_def)

lemma toy_enc_Nil: "toy_enc [] r = 0 # r" by (simp add: toy_enc_def)
lemma toy_enc_Cons: "toy_enc (a # m) r = 1 # a # toy_enc m r" by (simp add: toy_enc_def)

lemma toy_enc_inj: "toy_enc m r = toy_enc m' r' \<Longrightarrow> m = m' \<and> r = r'"
proof (induction m arbitrary: m')
  case Nil
  then show ?case by (cases m') (simp_all add: toy_enc_Nil toy_enc_Cons)
next
  case (Cons a m)
  show ?case
  proof (cases m')
    case Nil
    with Cons.prems show ?thesis by (simp add: toy_enc_Nil toy_enc_Cons)
  next
    case (Cons b m2)
    with Cons.prems have "a = b" and "toy_enc m r = toy_enc m2 r'"
      by (simp_all add: toy_enc_Nil toy_enc_Cons)
    with Cons.IH [of m2] Cons show ?thesis by simp
  qed
qed

lemma toy_proof_complete: "proof_complete toy"
  by (simp add: proof_complete_def toy_decode1_def)

lemma toy_honest_key: "honest_key toy (toy_key s)"
  by (simp add: honest_key_def toy_key_def)


lemma go_index_nth: "0 \<le> i \<Longrightarrow> i < int (length xs) \<Longrightarrow> go_index xs i = Ok (xs ! nat i)"
  by (simp add: go_index_def)

lemma dh_agree:
  assumes "dh_laws X" "honest_key X a" "honest_key X b" "Suite a = su" "Suite b = su"
  shows "Point_Mul X su (Public a) (Secret b) = Point_Mul X su (Public b) (Secret a)"
  using assms by (simp add: dh_laws_def honest_key_def)

lemma decrypt_encrypt:
  "scalar_laws X \<Longrightarrow> diffieHellmanEncrypt X su s D = Ok c \<Longrightarrow> diffieHellmanDecrypt X su c D = Ok s"
  by (auto simp add: diffieHellmanEncrypt_def diffieHellmanDecrypt_def scalar_laws_def
      split: option.splits)

section \<open>Diffie-Hellman masking\<close>

text \<open>
  Claim C7. For every scalar \<open>s\<close> and every point \<open>D\<close> whose marshalling succeeds (with
  bytes \<open>buff\<close>), encryption adds and decryption subtracts the same mask
  \<open>Secret_Pick su buff\<close>, which depends on \<open>D\<close> alone, and decrypting the encryption of
  \<open>s\<close> under \<open>D\<close> returns \<open>s\<close>. The one fact used of the scalars is that subtracting
  undoes adding.
\<close>

theorem diffieHellman_roundtrip:
  assumes "scalar_laws X" and "Point_MarshalBinary X D = Some buff"
  shows "diffieHellmanEncrypt X su s D = Ok (Secret_Add X su s (Secret_Pick X su buff)) \<and>
         diffieHellmanDecrypt X su c D = Ok (Secret_Sub X su c (Secret_Pick X su buff)) \<and>
         rbind (diffieHellmanEncrypt X su s D) (\<lambda>c. diffieHellmanDecrypt X su c D) = Ok s"
  using assms by (simp add: diffieHellmanEncrypt_def diffieHellmanDecrypt_def scalar_laws_def)

theorem diffieHellman_roundtrip_witness:
  "diffieHellmanEncrypt toy 0 5 7 = Ok 12 \<and> diffieHellmanDecrypt toy 0 12 7 = Ok 5 \<and>
   rbind (diffieHellmanEncrypt toy 0 5 7) (\<lambda>c. diffieHellmanDecrypt toy 0 c 7) = Ok 5"
  using diffieHellman_roundtrip [OF toy_scalar_laws, where D = 7 and buff = "[7]" and su = 0
      and s = 5 and c = 12]
  by simp

section \<open>Construction and share verification\<close>

lemma toy_key_sel [simp]:
  "Suite (toy_key s) = 0" "Public (toy_key s) = s" "Secret (toy_key s) = s"
  by (simp_all add: toy_key_def)

lemma toy_eval_Nil [simp]: "toy_eval [] x = 0"
  and toy_eval_Cons [simp]: "toy_eval (a # cs) x = a + x * toy_eval cs x"
  by (simp_all add: toy_eval_def)

lemma toy_construct:
  "ConstructPromise toy (toy_key 5) (toy_key 3) 2 2 (map Public toy_insurers) [9] = Ok toy_promise"
  by (simp add: ConstructPromise_def toy_insurers_def toy_promise_def diffieHellmanEncrypt_def Let_def)

lemma encrypt_shares_Ok:
  assumes "marshal_total X"
  shows "\<exists>secs. encrypt_shares X su sh k ins i = Ok secs \<and> length secs = length ins \<and>
           (\<forall>j < length ins. diffieHellmanEncrypt X su (PriShares_Share X sh (i + int j))
                 (Point_Mul X su (ins ! j) k) = Ok (secs ! j))"
proof (induction ins arbitrary: i)
  case Nil
  show ?case by simp
next
  case (Cons a ins)
  from assms obtain buff where buff: "Point_MarshalBinary X (Point_Mul X su a k) = Some buff"
    by (auto simp add: marshal_total_def)
  define c where "c = Secret_Add X su (PriShares_Share X sh i) (Secret_Pick X su buff)"
  have enc: "diffieHellmanEncrypt X su (PriShares_Share X sh i) (Point_Mul X su a k) = Ok c"
    by (simp add: diffieHellmanEncrypt_def buff c_def)
  from Cons.IH [of "i + 1"] obtain secs where
    secs: "encrypt_shares X su sh k ins (i + 1) = Ok secs" "length secs = length ins"
      "\<forall>j < length ins. diffieHellmanEncrypt X su (PriShares_Share X sh (i + 1 + int j))
                 (Point_Mul X su (ins ! j) k) = Ok (secs ! j)"
    by blast
  have "encrypt_shares X su sh k (a # ins) i = Ok (c # secs)"
    by (simp add: enc secs(1))
  moreover have "\<forall>j < length (a # ins). diffieHellmanEncrypt X su (PriShares_Share X sh (i + int j))
                 (Point_Mul X su ((a # ins) ! j) k) = Ok ((c # secs) ! j)"
  proof (intro allI impI)
    fix j assume j: "j < length (a # ins)"
    show "diffieHellmanEncrypt X su (PriShares_Share X sh (i + int j))
                 (Point_Mul X su ((a # ins) ! j) k) = Ok ((c # secs) ! j)"
    proof (cases j)
      case 0
      then show ?thesis by (simp add: enc)
    next
      case (Suc j')
      with j have "j' < length ins" by simp
      with secs(3) have "diffieHellmanEncrypt X su (PriShares_Share X sh (i + 1 + int j'))
                 (Point_Mul X su (ins ! j') k) = Ok (secs ! j')" by blast
      moreover have "i + 1 + int j' = i + int j" using Suc by simp
      ultimately show ?thesis using Suc by simp
    qed
  qed
  ultimately show ?case using secs(2) by simp
qed

lemma ConstructPromise_Ok:
  assumes "marshal_total X" and "t \<le> int (length ins)"
    and pick: "PriPoly_Pick X (Suite secret) t (Secret secret) rnd = Some pp"
  shows "\<exists>secs. ConstructPromise X secret keyPair t r ins rnd =
           Ok \<lparr> shareSuite = Suite secret, p_t = t,
                p_r = (if (if r < t then t else r) > int (length ins) then int (length ins)
                       else (if r < t then t else r)),
                p_n = int (length ins), pubKey = Public keyPair,
                pubPoly = PubPoly_Commit X pp,
                insurers = ins, secrets = secs \<rparr> \<and>
           length secs = length ins \<and>
           (\<forall>j < length ins.
              diffieHellmanEncrypt X (Suite secret)
                (PriShares_Share X (PriShares_Split X pp (int (length ins))) (int j))
                (Point_Mul X (Suite secret) (ins ! j) (Secret keyPair)) = Ok (secs ! j))"
proof -
  let ?sh = "PriShares_Split X pp (int (length ins))"
  from encrypt_shares_Ok [OF assms(1), of "Suite secret" ?sh "Secret keyPair" ins 0]
  obtain secs where
    secs: "encrypt_shares X (Suite secret) ?sh (Secret keyPair) ins 0 = Ok secs"
      "length secs = length ins"
      "\<forall>j < length ins. diffieHellmanEncrypt X (Suite secret) (PriShares_Share X ?sh (0 + int j))
                 (Point_Mul X (Suite secret) (ins ! j) (Secret keyPair)) = Ok (secs ! j)"
    by blast
  from assms(2) secs(1) have "ConstructPromise X secret keyPair t r ins rnd =
           Ok \<lparr> shareSuite = Suite secret, p_t = t,
                p_r = (if (if r < t then t else r) > int (length ins) then int (length ins)
                       else (if r < t then t else r)),
                p_n = int (length ins), pubKey = Public keyPair,
                pubPoly = PubPoly_Commit X pp,
                insurers = ins, secrets = secs \<rparr>"
    by (simp add: ConstructPromise_def Let_def pick)
  with secs(2,3) show ?thesis by simp
qed

lemma encrypt_shares_no_error: "encrypt_shares X su sh k ins i \<noteq> Err e"
proof (induction ins arbitrary: i)
  case Nil
  show ?case by simp
next
  case (Cons a ins)
  show ?case
  proof (cases "Point_MarshalBinary X (Point_Mul X su a k)")
    case None
    then show ?thesis by (simp add: diffieHellmanEncrypt_def)
  next
    case (Some buff)
    with Cons.IH [of "i + 1"] show ?thesis
      by (cases "encrypt_shares X su sh k ins (i + 1)") (simp_all add: diffieHellmanEncrypt_def)
  qed
qed

lemma ConstructPromise_no_error: "ConstructPromise X secret keyPair t r ins rnd \<noteq> Err e"
proof (cases "PriPoly_Pick X (Suite secret) t (Secret secret) rnd")
  case None
  then show ?thesis by (simp add: ConstructPromise_def Let_def)
next
  case (Some pp)
  with encrypt_shares_no_error
         [of X "Suite secret" "PriShares_Split X pp (int (length ins))" "Secret keyPair" ins 0 e]
  show ?thesis
    by (cases "encrypt_shares X (Suite secret) (PriShares_Split X pp (int (length ins)))
                 (Secret keyPair) ins 0")
       (simp_all add: ConstructPromise_def Let_def)
qed

text \<open>
  Claim C1. On a suite whose scalars, Diffie-Hellman agreement, point marshalling and
  polynomial library keep their contracts, for honest key pairs of the promise's suite, every
  \<open>t\<close> with \<open>t \<le> n\<close> for which the polynomial library returns a polynomial, every \<open>r\<close>,
  every random input and every index \<open>i\<close> in \<open>[0, n)\<close>: \<open>ConstructPromise\<close> returns a
  promise, and \<open>VerifyShare\<close> at \<open>i\<close> with insurer \<open>i\<close>'s own key pair returns nil on it.
\<close>

theorem VerifyShare_ConstructPromise:
  assumes laws: "scalar_laws X" "dh_laws X" "marshal_total X" "poly_laws X"
    and promiser: "honest_key X keyPair" "Suite keyPair = Suite secret"
    and ins: "\<forall>kp \<in> set kps. honest_key X kp \<and> Suite kp = Suite secret"
    and t: "t \<le> int (length kps)"
    and pick: "PriPoly_Pick X (Suite secret) t (Secret secret) rnd \<noteq> None"
    and i: "0 \<le> i" "i < int (length kps)"
  shows "\<exists>p. ConstructPromise X secret keyPair t r (map Public kps) rnd = Ok p \<and>
             VerifyShare X p i (kps ! nat i) = Ok ()"
proof -
  let ?su = "Suite secret"
  from pick obtain pp where pp: "PriPoly_Pick X ?su t (Secret secret) rnd = Some pp" by auto
  let ?sh = "PriShares_Split X pp (int (length kps))"
  let ?kp = "kps ! nat i"
  from i have ni: "nat i < length kps" by simp
  from t have t': "t \<le> int (length (map Public kps))" by simp
  from ConstructPromise_Ok [OF laws(3) t' pp, of keyPair r]
  obtain secs p where
    p: "ConstructPromise X secret keyPair t r (map Public kps) rnd = Ok p"
    and fields: "shareSuite p = ?su" "p_n p = int (length kps)" "pubKey p = Public keyPair"
      "pubPoly p = PubPoly_Commit X pp" "insurers p = map Public kps" "secrets p = secs"
    and len: "length secs = length kps"
    and enc: "\<forall>j < length kps. diffieHellmanEncrypt X ?su (PriShares_Share X ?sh (int j))
                (Point_Mul X ?su (map Public kps ! j) (Secret keyPair)) = Ok (secs ! j)"
    by fastforce
  from ni ins have kp: "honest_key X ?kp" "Suite ?kp = ?su" by simp_all
  have agree: "Point_Mul X ?su (Public ?kp) (Secret keyPair) = Point_Mul X ?su (Public keyPair) (Secret ?kp)"
    by (rule dh_agree [OF laws(2) kp(1) promiser(1) kp(2) promiser(2)])
  from enc ni have "diffieHellmanEncrypt X ?su (PriShares_Share X ?sh (int (nat i)))
                (Point_Mul X ?su (Public ?kp) (Secret keyPair)) = Ok (secs ! nat i)"
    by fastforce
  with i agree have e: "diffieHellmanEncrypt X ?su (PriShares_Share X ?sh i)
                (Point_Mul X ?su (Public keyPair) (Secret ?kp)) = Ok (secs ! nat i)"
    by simp
  have dec: "diffieHellmanDecrypt X ?su (secs ! nat i) (Point_Mul X ?su (Public keyPair) (Secret ?kp))
               = Ok (PriShares_Share X ?sh i)"
    by (rule decrypt_encrypt [OF laws(1) e])
  from laws(4) i have chk: "PubPoly_Check X (PubPoly_Commit X pp) i (PriShares_Share X ?sh i)"
    by (simp add: poly_laws_def)
  have "VerifyShare X p i ?kp = Ok ()"
    using i ni len dec chk
    by (simp add: VerifyShare_def fields go_index_nth)
  with p show ?thesis by blast
qed

theorem VerifyShare_ConstructPromise_witness:
  "ConstructPromise toy (toy_key 5) (toy_key 3) 2 2 (map Public toy_insurers) [9] = Ok toy_promise \<and>
   VerifyShare toy toy_promise 1 (toy_insurers ! nat 1) = Ok ()"
proof -
  have "\<exists>p. ConstructPromise toy (toy_key 5) (toy_key 3) 2 2 (map Public toy_insurers) [9] = Ok p \<and>
             VerifyShare toy p 1 (toy_insurers ! nat 1) = Ok ()"
    by (rule VerifyShare_ConstructPromise [OF toy_scalar_laws toy_dh_laws toy_marshal_total
          toy_poly_laws toy_honest_key])
       (simp_all add: toy_insurers_def toy_honest_key)
  then show ?thesis by (simp add: toy_construct)
qed

section \<open>The thresholds of a constructed promise\<close>

lemma ConstructPromise_fields:
  assumes "ConstructPromise X secret keyPair t r ins rnd = Ok p"
  shows "t \<le> int (length ins) \<and> p_t p = t \<and> p_n p = int (length ins) \<and>
         p_r p = (if (if r < t then t else r) > int (length ins) then int (length ins)
                  else (if r < t then t else r)) \<and>
         shareSuite p = Suite secret \<and> pubKey p = Public keyPair \<and> insurers p = ins"
proof (cases "int (length ins) < t")
  case True
  with assms show ?thesis by (simp add: ConstructPromise_def Let_def)
next
  case False
  show ?thesis
  proof (cases "PriPoly_Pick X (Suite secret) t (Secret secret) rnd")
    case None
    with assms False show ?thesis by (simp add: ConstructPromise_def Let_def)
  next
    case (Some pp)
    with assms False show ?thesis
      by (cases "encrypt_shares X (Suite secret) (PriShares_Split X pp (int (length ins)))
                   (Secret keyPair) ins 0")
         (auto simp add: ConstructPromise_def Let_def)
  qed
qed

lemma ConstructPromise_pick:
  assumes "ConstructPromise X secret keyPair t r ins rnd = Ok p"
  shows "\<exists>pp. PriPoly_Pick X (Suite secret) t (Secret secret) rnd = Some pp"
proof (cases "PriPoly_Pick X (Suite secret) t (Secret secret) rnd")
  case None
  with assms show ?thesis
    by (cases "int (length ins) < t") (simp_all add: ConstructPromise_def Let_def)
next
  case (Some pp)
  then show ?thesis by simp
qed

lemma ConstructPromise_library_panic:
  assumes "t \<le> int (length ins)"
    and "PriPoly_Pick X (Suite secret) t (Secret secret) rnd = None"
  shows "ConstructPromise X secret keyPair t r ins rnd = Panic LibraryPanic"
  using assms by (simp add: ConstructPromise_def Let_def)

text \<open>
  Claim C5, as amended. With \<open>n\<close> the number of insurers, \<open>ConstructPromise\<close> panics with
  "Not enough insurers" whenever \<open>n < t\<close>. It places no other bound on \<open>t\<close>: for \<open>t \<le> n\<close> it
  hands \<open>t\<close> to the polynomial library and, point marshalling being total, returns exactly
  when the library's \<open>Pick\<close> returns and panics exactly when \<open>Pick\<close> does. When it returns,
  \<open>t \<le> n\<close>, the stored \<open>n\<close> is the number of insurers, the stored \<open>t\<close> is the argument,
  \<open>t \<le> r \<le> n\<close> and the stored \<open>r\<close> is \<open>max t (min r n)\<close> of the arguments: \<open>t\<close> for an argument
  \<open>r < t\<close> and \<open>n\<close> for an argument \<open>r > n\<close>. The stored \<open>t\<close> is at least 1 when the library
  picks no polynomial for a threshold below 1. Whatever the library does, a call with
  \<open>t < 1\<close> has \<open>t \<le> n\<close> and either panics or returns a promise whose \<open>t\<close> is below 1.
\<close>

theorem ConstructPromise_thresholds:
  "(int (length ins) < t \<longrightarrow>
      ConstructPromise X secret keyPair t r ins rnd = Panic NotEnoughInsurers) \<and>
   (marshal_total X \<longrightarrow>
      ((\<exists>q. ConstructPromise X secret keyPair t r ins rnd = Panic q) \<longleftrightarrow>
         int (length ins) < t \<or> PriPoly_Pick X (Suite secret) t (Secret secret) rnd = None) \<and>
      ((\<exists>p. ConstructPromise X secret keyPair t r ins rnd = Ok p) \<longleftrightarrow>
         t \<le> int (length ins) \<and> PriPoly_Pick X (Suite secret) t (Secret secret) rnd \<noteq> None)) \<and>
   (\<forall>p. ConstructPromise X secret keyPair t r ins rnd = Ok p \<longrightarrow>
      t \<le> int (length ins) \<and> PriPoly_Pick X (Suite secret) t (Secret secret) rnd \<noteq> None \<and>
      p_n p = int (length ins) \<and> p_t p = t \<and> p_t p \<le> p_r p \<and> p_r p \<le> p_n p \<and>
      p_r p = max t (min r (int (length ins))) \<and>
      (r < t \<longrightarrow> p_r p = t) \<and> (int (length ins) < r \<longrightarrow> p_r p = int (length ins)) \<and>
      (pick_laws X \<longrightarrow> 1 \<le> p_t p)) \<and>
   (t < 1 \<longrightarrow>
      t \<le> int (length ins) \<and>
      ((\<exists>q. ConstructPromise X secret keyPair t r ins rnd = Panic q) \<or>
       (\<exists>p. ConstructPromise X secret keyPair t r ins rnd = Ok p \<and> p_t p < 1)))"
proof -
  let ?C = "ConstructPromise X secret keyPair t r ins rnd"
  let ?pick = "PriPoly_Pick X (Suite secret) t (Secret secret) rnd"
  have a: "?C = Panic NotEnoughInsurers" if "int (length ins) < t"
    using that by (simp add: ConstructPromise_def Let_def)
  have ok: "\<exists>p. ?C = Ok p" if "marshal_total X" "t \<le> int (length ins)" "?pick \<noteq> None"
  proof -
    from that(3) obtain pp where "?pick = Some pp" by auto
    from ConstructPromise_Ok [OF that(1,2) this, of keyPair r] show ?thesis by blast
  qed
  have b1: "(\<exists>q. ?C = Panic q) \<longleftrightarrow> int (length ins) < t \<or> ?pick = None" if m: "marshal_total X"
  proof
    assume "\<exists>q. ?C = Panic q"
    then obtain q where q: "?C = Panic q" ..
    show "int (length ins) < t \<or> ?pick = None"
    proof (rule ccontr)
      assume "\<not> (int (length ins) < t \<or> ?pick = None)"
      then have "t \<le> int (length ins)" "?pick \<noteq> None" by simp_all
      from ok [OF m this] q show False by simp
    qed
  next
    assume "int (length ins) < t \<or> ?pick = None"
    then show "\<exists>q. ?C = Panic q"
    proof
      assume "int (length ins) < t"
      from a [OF this] show ?thesis by blast
    next
      assume n: "?pick = None"
      show ?thesis
      proof (cases "int (length ins) < t")
        case True
        from a [OF this] show ?thesis by blast
      next
        case False
        then have "t \<le> int (length ins)" by simp
        from ConstructPromise_library_panic [OF this n, of keyPair r] show ?thesis by blast
      qed
    qed
  qed
  have c: "t \<le> int (length ins) \<and> ?pick \<noteq> None \<and>
      p_n p = int (length ins) \<and> p_t p = t \<and> p_t p \<le> p_r p \<and> p_r p \<le> p_n p \<and>
      p_r p = max t (min r (int (length ins))) \<and>
      (r < t \<longrightarrow> p_r p = t) \<and> (int (length ins) < r \<longrightarrow> p_r p = int (length ins)) \<and>
      (pick_laws X \<longrightarrow> 1 \<le> p_t p)" if p: "?C = Ok p" for p
  proof -
    note f = ConstructPromise_fields [OF p]
    from ConstructPromise_pick [OF p] have pk: "?pick \<noteq> None" by auto
    from f have 1: "t \<le> int (length ins)" by simp
    from f have 2: "p_n p = int (length ins)" by simp
    from f have 3: "p_t p = t" by simp
    from f have 4: "p_t p \<le> p_r p" by (simp split: if_splits)
    from f have 5: "p_r p \<le> p_n p" by (simp split: if_splits)
    from f have 6: "p_r p = max t (min r (int (length ins)))" by (simp split: if_splits)
    from f have 7: "r < t \<longrightarrow> p_r p = t" by (simp split: if_splits)
    from f have 8: "int (length ins) < r \<longrightarrow> p_r p = int (length ins)" by (simp split: if_splits)
    have 9: "1 \<le> p_t p" if "pick_laws X"
    proof (rule ccontr)
      assume "\<not> 1 \<le> p_t p"
      with 3 have "t < 1" by simp
      with that have "?pick = None" by (simp add: pick_laws_def)
      with pk show False by simp
    qed
    from pk 1 2 3 4 5 6 7 8 9 show ?thesis by blast
  qed
  have b2: "(\<exists>p. ?C = Ok p) \<longleftrightarrow> t \<le> int (length ins) \<and> ?pick \<noteq> None" if m: "marshal_total X"
  proof
    assume "\<exists>p. ?C = Ok p"
    then obtain p where "?C = Ok p" ..
    from c [OF this] show "t \<le> int (length ins) \<and> ?pick \<noteq> None" by simp
  next
    assume "t \<le> int (length ins) \<and> ?pick \<noteq> None"
    then show "\<exists>p. ?C = Ok p" using ok [OF m] by simp
  qed
  have d: "t \<le> int (length ins) \<and> ((\<exists>q. ?C = Panic q) \<or> (\<exists>p. ?C = Ok p \<and> p_t p < 1))" if t: "t < 1"
  proof -
    from t have le: "t \<le> int (length ins)" by simp
    have "(\<exists>q. ?C = Panic q) \<or> (\<exists>p. ?C = Ok p \<and> p_t p < 1)"
    proof (cases ?C)
      case (Ok p)
      from c [OF this] t have "p_t p < 1" by simp
      with Ok show ?thesis by simp
    next
      case (Err e)
      with ConstructPromise_no_error [of X secret keyPair t r ins rnd e] show ?thesis by simp
    next
      case (Panic q)
      then show ?thesis by simp
    qed
    with le show ?thesis by simp
  qed
  show ?thesis
    apply (intro conjI)
    subgoal using a by blast
    subgoal by (intro impI conjI) (erule b1, erule b2)
    subgoal using c by blast
    subgoal using d by blast
    done
qed

theorem ConstructPromise_thresholds_witness:
  "ConstructPromise toy (toy_key 5) (toy_key 3) 4 2 (map Public toy_insurers) [9]
     = Panic NotEnoughInsurers \<and>
   ConstructPromise toy (toy_key 5) (toy_key 3) 2 1 (map Public toy_insurers) [9]
     = Ok toy_promise \<and>
   p_n toy_promise = 3 \<and> p_t toy_promise = 2 \<and> p_r toy_promise = max 2 (min 1 3) \<and>
   1 \<le> p_t toy_promise \<and>
   (\<exists>q. ConstructPromise toy (toy_key 5) (toy_key 3) 0 2 (map Public toy_insurers) [9] = Panic q)"
proof -
  have c: "ConstructPromise toy (toy_key 5) (toy_key 3) 2 1 (map Public toy_insurers) [9]
     = Ok toy_promise"
    by (simp add: ConstructPromise_def toy_insurers_def toy_promise_def diffieHellmanEncrypt_def
        Let_def)
  have pl: "pick_laws toy" by (simp add: pick_laws_def)
  from ConstructPromise_thresholds [of "map Public toy_insurers" 4 toy "toy_key 5" "toy_key 3" 2 "[9]"]
  have a: "ConstructPromise toy (toy_key 5) (toy_key 3) 4 2 (map Public toy_insurers) [9]
     = Panic NotEnoughInsurers"
    by (simp add: toy_insurers_def)
  from ConstructPromise_thresholds [of "map Public toy_insurers" 2 toy "toy_key 5" "toy_key 3" 1 "[9]"]
  have "\<forall>p. ConstructPromise toy (toy_key 5) (toy_key 3) 2 1 (map Public toy_insurers) [9] = Ok p \<longrightarrow>
      p_n p = int (length (map Public toy_insurers)) \<and> p_t p = 2 \<and>
      p_r p = max 2 (min 1 (int (length (map Public toy_insurers)))) \<and>
      (pick_laws toy \<longrightarrow> 1 \<le> p_t p)"
    by blast
  with c pl have b: "p_n toy_promise = 3 \<and> p_t toy_promise = 2 \<and>
      p_r toy_promise = max 2 (min 1 3) \<and> 1 \<le> p_t toy_promise"
    by (simp add: toy_insurers_def)
  from ConstructPromise_thresholds [of "map Public toy_insurers" 0 toy "toy_key 5" "toy_key 3" 2 "[9]"]
       toy_marshal_total
  have d: "\<exists>q. ConstructPromise toy (toy_key 5) (toy_key 3) 0 2 (map Public toy_insurers) [9] = Panic q"
    by simp
  from a c b d show ?thesis by simp
qed

text \<open>
  The claim as stated fails for \<open>t = 0\<close> and no insurers, where \<open>n < t\<close> is false. With a
  polynomial library that picks no polynomial for a threshold below 1 the call panics, so it
  does not panic only when \<open>n < t\<close>; with one that returns, the call returns a promise that
  stores \<open>t = 0\<close>, so \<open>1 \<le> t\<close> fails on return.
\<close>

theorem ConstructPromise_zero_threshold:
  "\<not> int (length ([] :: byte list)) < 0 \<and>
   ConstructPromise toy (toy_key 5) (toy_key 3) 0 0 [] [] = Panic LibraryPanic \<and>
   ConstructPromise toy_lenient (toy_key 5) (toy_key 3) 0 0 [] []
     = Ok \<lparr> shareSuite = 0, p_t = 0, p_r = 0, p_n = 0, pubKey = 3, pubPoly = [5],
            insurers = [], secrets = [] \<rparr>"
  by (simp add: ConstructPromise_def Let_def toy_lenient_def)

section \<open>Signatures and the index argument\<close>

text \<open>
  Claim C10. The index argument of \<open>Sign\<close> and of \<open>Blame\<close> does not influence the result:
  with the same key pair and random input, two indices give the same signature and the same
  blame proof. The ring of the signature is the signer's own public key, not the promise's
  insurer at that index. So, when signing is complete and the key pair is honest, the
  signature verifies at every index \<open>k\<close> of the promise whose insurer is that public key,
  whatever index it was made for.
\<close>

theorem sign_ignores_index:
  "Sign X p i kp rnd = Sign X p j kp rnd \<and>
   Blame X p i kp rnd rnd2 = Blame X p j kp rnd rnd2 \<and>
   sig_signature (Sign X p i kp rnd)
     = Some (anon_Sign X (Suite kp) rnd sigMsg [Public kp] 0 (Secret kp)) \<and>
   (\<forall>bp. Blame X p i kp rnd rnd2 = Ok bp \<longrightarrow>
      sig_signature (bp_signature bp)
        = Some (anon_Sign X (Suite kp) rnd sigBlameMsg [Public kp] 0 (Secret kp))) \<and>
   (anon_complete X \<and> honest_key X kp \<and> 0 \<le> k \<and> k < p_n p \<and> k < int (length (insurers p)) \<and>
    insurers p ! nat k = Public kp \<longrightarrow>
      VerifySignature X p k (Sign X p i kp rnd) = Ok ())"
proof (intro conjI allI impI)
  show "Sign X p i kp rnd = Sign X p j kp rnd"
    by (simp add: Sign_def sign_def)
  show "Blame X p i kp rnd rnd2 = Blame X p j kp rnd rnd2"
    by (simp add: Blame_def sign_def)
  show "sig_signature (Sign X p i kp rnd)
     = Some (anon_Sign X (Suite kp) rnd sigMsg [Public kp] 0 (Secret kp))"
    by (simp add: Sign_def sign_def Let_def)
next
  fix bp assume "Blame X p i kp rnd rnd2 = Ok bp"
  then show "sig_signature (bp_signature bp)
        = Some (anon_Sign X (Suite kp) rnd sigBlameMsg [Public kp] 0 (Secret kp))"
    by (auto simp add: Blame_def sign_def Let_def split: option.splits)
next
  assume a: "anon_complete X \<and> honest_key X kp \<and> 0 \<le> k \<and> k < p_n p \<and>
    k < int (length (insurers p)) \<and> insurers p ! nat k = Public kp"
  then have "anon_Verify X (Suite kp) sigMsg [Public kp]
               (anon_Sign X (Suite kp) rnd sigMsg [Public kp] 0 (Secret kp))"
    by (simp add: anon_complete_def honest_key_def)
  with a show "VerifySignature X p k (Sign X p i kp rnd) = Ok ()"
    by (simp add: VerifySignature_def verifySignature_def Sign_def sign_def Let_def go_index_nth)
qed

theorem sign_ignores_index_witness:
  "Sign toy toy_promise 0 (toy_key 11) [] = Sign toy toy_promise 2 (toy_key 11) [] \<and>
   Blame toy toy_promise 0 (toy_key 11) [] [] = Blame toy toy_promise 2 (toy_key 11) [] [] \<and>
   VerifySignature toy toy_promise 1 (Sign toy toy_promise 0 (toy_key 11) []) = Ok ()"
proof -
  have pre: "anon_complete toy \<and> honest_key toy (toy_key 11) \<and> (0::int) \<le> 1 \<and> 1 < p_n toy_promise \<and>
      1 < int (length (insurers toy_promise)) \<and> insurers toy_promise ! nat 1 = Public (toy_key 11)"
    by (simp add: toy_anon_complete toy_honest_key toy_promise_def)
  from sign_ignores_index [of toy toy_promise 0 "toy_key 11" "[]" 2 "[]" 1] pre
  show ?thesis by blast
qed

section \<open>Indices out of range\<close>

text \<open>
  Claim C6, as amended. For an index \<open>i\<close> outside \<open>[0, n)\<close>: \<open>VerifyShare\<close> and
  \<open>VerifyBlame\<close> return the invalid-index error; \<open>VerifySignature\<close> returns an error, the
  nil-signature error when the signature is nil and the invalid-index error otherwise;
  \<open>VerifyRevealedShare\<close> returns the invalid-index error for \<open>i < 0\<close> and for \<open>i > n\<close>;
  \<open>RevealShare\<close>, which has no error result, panics on the out-of-range read of the
  secrets (of a promise with \<open>n\<close> secrets); \<open>Blame\<close> does not look at its index and
  returns what it returns at index 0.
\<close>

theorem index_out_of_range:
  assumes "i < 0 \<or> p_n p \<le> i"
  shows "VerifyShare X p i kp = Err InvalidIndex \<and>
         VerifyBlame X p i bl = Err InvalidIndex \<and>
         VerifySignature X p i sig
           = (if sig_signature sig = None then Err NilSignature else Err InvalidIndex) \<and>
         (i < 0 \<or> p_n p < i \<longrightarrow> VerifyRevealedShare X p i share = Err InvalidIndex) \<and>
         (int (length (secrets p)) = p_n p \<longrightarrow> RevealShare X p i kp = Panic IndexOutOfRange) \<and>
         Blame X p i kp rnd rnd2 = Blame X p 0 kp rnd rnd2"
proof (intro conjI impI)
  from assms show "VerifyShare X p i kp = Err InvalidIndex"
    by (auto simp add: VerifyShare_def)
  from assms show "VerifyBlame X p i bl = Err InvalidIndex"
    by (auto simp add: VerifyBlame_def)
  from assms show "VerifySignature X p i sig
           = (if sig_signature sig = None then Err NilSignature else Err InvalidIndex)"
    by (auto simp add: VerifySignature_def verifySignature_def split: option.splits)
  show "VerifyRevealedShare X p i share = Err InvalidIndex" if "i < 0 \<or> p_n p < i"
    using that by (auto simp add: VerifyRevealedShare_def)
  show "RevealShare X p i kp = Panic IndexOutOfRange" if "int (length (secrets p)) = p_n p"
    using that assms by (auto simp add: RevealShare_def go_index_def Let_def)
  show "Blame X p i kp rnd rnd2 = Blame X p 0 kp rnd rnd2"
    by (simp add: Blame_def sign_def)
qed

theorem index_out_of_range_witness:
  "VerifyShare toy toy_promise 3 (toy_key 7) = Err InvalidIndex \<and>
   VerifyBlame toy toy_promise 3 \<lparr> bp_suite = 0, diffieKey = 21, diffieKeyProof = Some [7],
       bp_signature = \<lparr> sig_suite = 0, sig_signature = Some [] \<rparr> \<rparr> = Err InvalidIndex \<and>
   VerifySignature toy toy_promise 3 \<lparr> sig_suite = 0, sig_signature = Some [] \<rparr>
     = Err InvalidIndex \<and>
   VerifyRevealedShare toy toy_promise 4 14 = Err InvalidIndex \<and>
   RevealShare toy toy_promise 3 (toy_key 7) = Panic IndexOutOfRange"
proof -
  have pre: "(3::int) < 0 \<or> p_n toy_promise \<le> 3" by (simp add: toy_promise_def)
  have pre4: "(4::int) < 0 \<or> p_n toy_promise \<le> 4" by (simp add: toy_promise_def)
  from index_out_of_range [OF pre, of toy "toy_key 7" _ "\<lparr> sig_suite = 0, sig_signature = Some [] \<rparr>"]
    index_out_of_range [OF pre4, of toy _ _ _ 14]
  show ?thesis by (simp add: toy_promise_def)
qed

text \<open>
  The claim as stated fails at \<open>i = n\<close> on the promise of three insurers: \<open>RevealShare\<close>
  panics, \<open>Blame\<close> returns a blame proof, and \<open>VerifyRevealedShare\<close> accepts the value of
  the polynomial at the abscissa after the last share.
\<close>

theorem indexed_operations_counterexample:
  "RevealShare toy toy_promise 3 (toy_key 7) = Panic IndexOutOfRange \<and>
   Blame toy toy_promise 3 (toy_key 7) [] []
     = Ok \<lparr> bp_suite = 0, diffieKey = 21, diffieKeyProof = Some [7],
            bp_signature = \<lparr> sig_suite = 0, sig_signature = Some (toy_enc sigBlameMsg [7]) \<rparr> \<rparr> \<and>
   VerifyRevealedShare toy toy_promise 3 41 = Ok ()"
  by (simp add: RevealShare_def Blame_def sign_def VerifyRevealedShare_def toy_promise_def
      go_index_def Let_def)

section \<open>Endorsements\<close>


lemma verifySignature_sign:
  assumes n: "p_n p = int (length (insurers p))" and j: "0 \<le> j" "j < p_n p"
  shows "verifySignature X p j (sign X p' i kp msg rnd) msg' =
           (if anon_Verify X (Suite kp) msg' [insurers p ! nat j]
                 (anon_Sign X (Suite kp) rnd msg [Public kp] 0 (Secret kp))
            then Ok () else Err AnonVerifyFailed)"
  using assms by (simp add: verifySignature_def sign_def Let_def go_index_nth)











section \<open>Blame verification\<close>

lemma toy_honest_promise:
  "honest_promise toy (toy_key 5) (toy_key 3) toy_insurers 2 2 [9] toy_promise"
  by (simp add: honest_promise_def toy_scalar_laws toy_dh_laws toy_marshal_total toy_poly_laws
      toy_honest_key toy_construct)
     (simp add: toy_insurers_def toy_honest_key)

lemma honest_share:
  assumes h: "honest_promise X secret keyPair kps t r rnd p"
    and i: "0 \<le> i" "i < int (length kps)"
  shows "\<exists>sec share. go_index (secrets p) i = Ok sec \<and>
           diffieHellmanDecrypt X (shareSuite p) sec
             (Point_Mul X (shareSuite p) (pubKey p) (Secret (kps ! nat i))) = Ok share \<and>
           PubPoly_Check X (pubPoly p) i share"
proof -
  let ?su = "Suite secret"
  let ?kp = "kps ! nat i"
  from h have laws: "scalar_laws X" "dh_laws X" "marshal_total X" "poly_laws X"
    and promiser: "honest_key X keyPair" "Suite keyPair = Suite secret"
    and ins: "\<forall>kp \<in> set kps. honest_key X kp \<and> Suite kp = Suite secret"
    and p: "ConstructPromise X secret keyPair t r (map Public kps) rnd = Ok p"
    by (simp_all add: honest_promise_def)
  from i have ni: "nat i < length kps" by simp
  from ConstructPromise_fields [OF p] have t': "t \<le> int (length (map Public kps))" by simp
  from ConstructPromise_pick [OF p] obtain pp
    where pp: "PriPoly_Pick X ?su t (Secret secret) rnd = Some pp" ..
  let ?sh = "PriShares_Split X pp (int (length kps))"
  from ConstructPromise_Ok [OF laws(3) t' pp, of keyPair r] p
  obtain secs where
    fields: "shareSuite p = ?su" "pubKey p = Public keyPair"
      "pubPoly p = PubPoly_Commit X pp" "secrets p = secs"
    and len: "length secs = length kps"
    and enc: "\<forall>j < length kps. diffieHellmanEncrypt X ?su (PriShares_Share X ?sh (int j))
                (Point_Mul X ?su (map Public kps ! j) (Secret keyPair)) = Ok (secs ! j)"
    by fastforce
  from ni ins have kp: "honest_key X ?kp" "Suite ?kp = ?su" by simp_all
  have agree: "Point_Mul X ?su (Public ?kp) (Secret keyPair) = Point_Mul X ?su (Public keyPair) (Secret ?kp)"
    by (rule dh_agree [OF laws(2) kp(1) promiser(1) kp(2) promiser(2)])
  from enc ni have "diffieHellmanEncrypt X ?su (PriShares_Share X ?sh (int (nat i)))
                (Point_Mul X ?su (Public ?kp) (Secret keyPair)) = Ok (secs ! nat i)"
    by fastforce
  with i agree have e: "diffieHellmanEncrypt X ?su (PriShares_Share X ?sh i)
                (Point_Mul X ?su (Public keyPair) (Secret ?kp)) = Ok (secs ! nat i)"
    by simp
  have dec: "diffieHellmanDecrypt X ?su (secs ! nat i) (Point_Mul X ?su (Public keyPair) (Secret ?kp))
               = Ok (PriShares_Share X ?sh i)"
    by (rule decrypt_encrypt [OF laws(1) e])
  from laws(4) i have chk: "PubPoly_Check X (PubPoly_Commit X pp) i (PriShares_Share X ?sh i)"
    by (simp add: poly_laws_def)
  from i len have "go_index (secrets p) i = Ok (secs ! nat i)"
    by (simp add: fields go_index_nth)
  with dec chk show ?thesis by (simp add: fields)
qed

lemma VerifyBlame_unfold:
  assumes "0 \<le> i" "i < p_n p"
  shows "VerifyBlame X p i bl =
     rbind (verifySignature X p i (bp_signature bl) sigBlameMsg) (\<lambda>_.
        if \<not> proof_HashVerify X (shareSuite p) protocolName (diffieKey bl) (pubKey p)
               (slice_bytes (diffieKeyProof bl))
        then Err HashVerifyFailed
        else
          rbind (rbind (go_index (secrets p) i) (\<lambda>sec.
                   diffieHellmanDecrypt X (shareSuite p) sec (diffieKey bl))) (\<lambda>share.
            if PubPoly_Check X (pubPoly p) i share then Err UnjustifiedBlame
            else Ok ()))"
  using assms by (cases "go_index (secrets p) i") (simp_all add: VerifyBlame_def)

lemma VerifyBlame_explicit:
  "VerifyBlame X p i bl =
     (if i < 0 \<or> p_n p \<le> i then Err InvalidIndex
      else case sig_signature (bp_signature bl) of
          None \<Rightarrow> Err NilSignature
        | Some s \<Rightarrow>
            if int (length (insurers p)) \<le> i then Panic IndexOutOfRange
            else if \<not> anon_Verify X (sig_suite (bp_signature bl)) sigBlameMsg [insurers p ! nat i] s
            then Err AnonVerifyFailed
            else if \<not> proof_HashVerify X (shareSuite p) protocolName (diffieKey bl) (pubKey p)
                        (slice_bytes (diffieKeyProof bl))
            then Err HashVerifyFailed
            else if int (length (secrets p)) \<le> i then Panic IndexOutOfRange
            else rbind (diffieHellmanDecrypt X (shareSuite p) (secrets p ! nat i) (diffieKey bl))
                   (\<lambda>share. if PubPoly_Check X (pubPoly p) i share then Err UnjustifiedBlame
                             else Ok ()))"
  by (simp add: VerifyBlame_def verifySignature_def go_index_def split: option.splits)

text \<open>
  Claim C2. \<open>VerifyBlame\<close> returns nil exactly when the index is in \<open>[0, n)\<close>, the blame
  carries a signature that \<^verbatim>\<open>anon.Verify\<close> accepts over the blame tag for the one-key ring
  of the insurer at that index, the proof verifies for \<open>D\<close> the blame's Diffie-Hellman key
  and \<open>P\<close> the promiser's public key, and the secret at that index, decrypted with the
  blame's key, fails the polynomial check. The checks come in this order: an index out of
  range gives the invalid-index error whatever the rest; with the index in range a missing
  signature gives the nil-signature error and a signature that \<^verbatim>\<open>anon.Verify\<close> rejects for
  that ring and tag gives its error, whatever the proof; with the signature good a bad proof
  gives the proof error; with all of these good the result is decided by the polynomial
  check of the decrypted share: the unjustified-blame error when it passes, nil when it
  fails. On an honestly constructed promise, with a complete signature scheme and proof
  system, \<open>Blame\<close> at \<open>i\<close> by insurer \<open>i\<close> returns a blame proof on which \<open>VerifyBlame\<close> at
  \<open>i\<close> returns the unjustified-blame error, for every \<open>i\<close> in \<open>[0, n)\<close>.
\<close>

theorem VerifyBlame_cascade:
  "(VerifyBlame X p i bl = Ok () \<longleftrightarrow>
      0 \<le> i \<and> i < p_n p \<and>
      (\<exists>s. sig_signature (bp_signature bl) = Some s \<and> i < int (length (insurers p)) \<and>
           anon_Verify X (sig_suite (bp_signature bl)) sigBlameMsg [insurers p ! nat i] s) \<and>
      proof_HashVerify X (shareSuite p) protocolName (diffieKey bl) (pubKey p)
        (slice_bytes (diffieKeyProof bl)) \<and>
      (\<exists>share. i < int (length (secrets p)) \<and>
          diffieHellmanDecrypt X (shareSuite p) (secrets p ! nat i) (diffieKey bl) = Ok share \<and>
          \<not> PubPoly_Check X (pubPoly p) i share)) \<and>
   (i < 0 \<or> p_n p \<le> i \<longrightarrow> VerifyBlame X p i bl = Err InvalidIndex) \<and>
   (0 \<le> i \<and> i < p_n p \<longrightarrow>
      (sig_signature (bp_signature bl) = None \<longrightarrow> VerifyBlame X p i bl = Err NilSignature) \<and>
      (\<forall>s. sig_signature (bp_signature bl) = Some s \<and> i < int (length (insurers p)) \<longrightarrow>
         (\<not> anon_Verify X (sig_suite (bp_signature bl)) sigBlameMsg [insurers p ! nat i] s \<longrightarrow>
            VerifyBlame X p i bl = Err AnonVerifyFailed) \<and>
         (anon_Verify X (sig_suite (bp_signature bl)) sigBlameMsg [insurers p ! nat i] s \<and>
          \<not> proof_HashVerify X (shareSuite p) protocolName (diffieKey bl) (pubKey p)
              (slice_bytes (diffieKeyProof bl)) \<longrightarrow>
            VerifyBlame X p i bl = Err HashVerifyFailed) \<and>
         (\<forall>share.
            anon_Verify X (sig_suite (bp_signature bl)) sigBlameMsg [insurers p ! nat i] s \<and>
            proof_HashVerify X (shareSuite p) protocolName (diffieKey bl) (pubKey p)
              (slice_bytes (diffieKeyProof bl)) \<and>
            i < int (length (secrets p)) \<and>
            diffieHellmanDecrypt X (shareSuite p) (secrets p ! nat i) (diffieKey bl) = Ok share \<longrightarrow>
              VerifyBlame X p i bl =
                (if PubPoly_Check X (pubPoly p) i share then Err UnjustifiedBlame else Ok ())))) \<and>
   (honest_promise X secret keyPair kps t r rnd0 p \<and> anon_complete X \<and> proof_complete X \<and>
    0 \<le> i \<and> i < int (length kps) \<longrightarrow>
      (\<exists>hb. Blame X p i (kps ! nat i) rnd rnd2 = Ok hb \<and>
            VerifyBlame X p i hb = Err UnjustifiedBlame))"
proof (intro conjI)
  let ?av = "\<lambda>s. anon_Verify X (sig_suite (bp_signature bl)) sigBlameMsg [insurers p ! nat i] s"
  let ?hv = "proof_HashVerify X (shareSuite p) protocolName (diffieKey bl) (pubKey p)
        (slice_bytes (diffieKeyProof bl))"
  let ?dec = "diffieHellmanDecrypt X (shareSuite p) (secrets p ! nat i) (diffieKey bl)"
  show "VerifyBlame X p i bl = Ok () \<longleftrightarrow>
      0 \<le> i \<and> i < p_n p \<and>
      (\<exists>s. sig_signature (bp_signature bl) = Some s \<and> i < int (length (insurers p)) \<and> ?av s) \<and>
      ?hv \<and>
      (\<exists>share. i < int (length (secrets p)) \<and> ?dec = Ok share \<and>
          \<not> PubPoly_Check X (pubPoly p) i share)"
    unfolding VerifyBlame_explicit
    by (cases "sig_signature (bp_signature bl)"; cases ?dec) (auto split: if_splits)
  show "i < 0 \<or> p_n p \<le> i \<longrightarrow> VerifyBlame X p i bl = Err InvalidIndex"
    by (simp add: VerifyBlame_explicit)
  show "0 \<le> i \<and> i < p_n p \<longrightarrow>
      (sig_signature (bp_signature bl) = None \<longrightarrow> VerifyBlame X p i bl = Err NilSignature) \<and>
      (\<forall>s. sig_signature (bp_signature bl) = Some s \<and> i < int (length (insurers p)) \<longrightarrow>
         (\<not> ?av s \<longrightarrow> VerifyBlame X p i bl = Err AnonVerifyFailed) \<and>
         (?av s \<and> \<not> ?hv \<longrightarrow> VerifyBlame X p i bl = Err HashVerifyFailed) \<and>
         (\<forall>share. ?av s \<and> ?hv \<and> i < int (length (secrets p)) \<and> ?dec = Ok share \<longrightarrow>
              VerifyBlame X p i bl =
                (if PubPoly_Check X (pubPoly p) i share then Err UnjustifiedBlame else Ok ())))"
    by (simp add: VerifyBlame_explicit)
  show "honest_promise X secret keyPair kps t r rnd0 p \<and> anon_complete X \<and> proof_complete X \<and>
    0 \<le> i \<and> i < int (length kps) \<longrightarrow>
      (\<exists>hb. Blame X p i (kps ! nat i) rnd rnd2 = Ok hb \<and>
            VerifyBlame X p i hb = Err UnjustifiedBlame)"
  proof
    assume a: "honest_promise X secret keyPair kps t r rnd0 p \<and> anon_complete X \<and> proof_complete X \<and>
      0 \<le> i \<and> i < int (length kps)"
    let ?kp = "kps ! nat i"
    let ?D = "Point_Mul X (shareSuite p) (pubKey p) (Secret ?kp)"
    from a have h: "honest_promise X secret keyPair kps t r rnd0 p" and i: "0 \<le> i" "i < int (length kps)"
      by simp_all
    from h have p: "ConstructPromise X secret keyPair t r (map Public kps) rnd0 = Ok p"
      and kph: "honest_key X ?kp" using i by (simp_all add: honest_promise_def)
    note f = ConstructPromise_fields [OF p]
    from f have n: "p_n p = int (length kps)" and ins: "insurers p = map Public kps" by simp_all
    then have n': "p_n p = int (length (insurers p))" by simp
    from a obtain zk where
      pf: "proof_HashProve X (shareSuite p) protocolName rnd2 (Secret ?kp) ?D (pubKey p) = Some zk"
           "proof_HashVerify X (shareSuite p) protocolName ?D (pubKey p) zk"
      unfolding proof_complete_def by blast
    define hb where "hb = \<lparr> bp_suite = shareSuite p, diffieKey = ?D, diffieKeyProof = Some zk,
                            bp_signature = sign X p i ?kp sigBlameMsg rnd \<rparr>"
    have b: "Blame X p i ?kp rnd rnd2 = Ok hb"
      by (simp add: Blame_def Let_def pf(1) hb_def)
    from a kph have "anon_Verify X (Suite ?kp) sigBlameMsg [Public ?kp]
               (anon_Sign X (Suite ?kp) rnd sigBlameMsg [Public ?kp] 0 (Secret ?kp))"
      by (simp add: anon_complete_def honest_key_def)
    with verifySignature_sign [OF n', of i X p i ?kp sigBlameMsg rnd sigBlameMsg] i n ins
    have vs: "verifySignature X p i (bp_signature hb) sigBlameMsg = Ok ()"
      by (simp add: hb_def)
    from honest_share [OF h i] obtain sec share where
      s: "go_index (secrets p) i = Ok sec"
         "diffieHellmanDecrypt X (shareSuite p) sec ?D = Ok share"
         "PubPoly_Check X (pubPoly p) i share"
      by blast
    from i n have "VerifyBlame X p i hb = Err UnjustifiedBlame"
      by (simp add: VerifyBlame_unfold vs) (simp add: hb_def pf(2) s slice_bytes_def)
    with b show "\<exists>hb. Blame X p i ?kp rnd rnd2 = Ok hb \<and> VerifyBlame X p i hb = Err UnjustifiedBlame"
      by blast
  qed
qed


theorem VerifyBlame_cascade_witness:
  "Blame toy toy_promise 0 (toy_insurers ! nat 0) [] [] = Ok toy_blame \<and>
   VerifyBlame toy toy_promise 0 toy_blame = Err UnjustifiedBlame \<and>
   VerifyBlame toy (toy_promise\<lparr> secrets := [0, 56, 71] \<rparr>) 0 toy_blame = Ok () \<and>
   VerifyBlame toy toy_promise 3 toy_blame = Err InvalidIndex \<and>
   VerifyBlame toy (toy_promise\<lparr> secrets := [0, 56, 71] \<rparr>) 0
       (toy_blame\<lparr> bp_signature := \<lparr> sig_suite = 0, sig_signature = None \<rparr> \<rparr>)
     = Err NilSignature \<and>
   VerifyBlame toy (toy_promise\<lparr> secrets := [0, 56, 71] \<rparr>) 1 toy_blame = Err AnonVerifyFailed \<and>
   VerifyBlame toy (toy_promise\<lparr> secrets := [0, 56, 71] \<rparr>) 0
       (toy_blame\<lparr> diffieKeyProof := None \<rparr>) = Err HashVerifyFailed"
proof -
  let ?bad = "toy_promise\<lparr> secrets := [0, 56, 71] \<rparr>"
  let ?nil = "toy_blame\<lparr> bp_signature := \<lparr> sig_suite = 0, sig_signature = None \<rparr> \<rparr>"
  let ?nop = "toy_blame\<lparr> diffieKeyProof := None \<rparr>"
  have b: "Blame toy toy_promise 0 (toy_insurers ! nat 0) [] [] = Ok toy_blame"
    by (simp add: Blame_def sign_def toy_promise_def toy_insurers_def toy_blame_def Let_def)
  have pre: "honest_promise toy (toy_key 5) (toy_key 3) toy_insurers 2 2 [9] toy_promise \<and>
      anon_complete toy \<and> proof_complete toy \<and> (0::int) \<le> 0 \<and> 0 < int (length toy_insurers)"
    using toy_honest_promise toy_anon_complete toy_proof_complete
    by (simp add: toy_insurers_def)
  from VerifyBlame_cascade [of toy toy_promise 0 toy_blame "toy_key 5" "toy_key 3" toy_insurers 2 2 "[9]"
      "[]" "[]"] pre b
  have u: "VerifyBlame toy toy_promise 0 toy_blame = Err UnjustifiedBlame"
    by auto
  have n: "(0::int) \<le> 0 \<and> 0 < p_n ?bad" by (simp add: toy_promise_def)
  have sg: "sig_signature (bp_signature toy_blame) = Some (toy_enc sigBlameMsg [7]) \<and>
            0 < int (length (insurers ?bad)) \<and>
            anon_Verify toy (sig_suite (bp_signature toy_blame)) sigBlameMsg [insurers ?bad ! nat 0]
              (toy_enc sigBlameMsg [7])"
    by (simp add: toy_blame_def toy_promise_def)
  have hv: "proof_HashVerify toy (shareSuite ?bad) protocolName (diffieKey toy_blame) (pubKey ?bad)
        (slice_bytes (diffieKeyProof toy_blame))"
    by (simp add: toy_promise_def toy_blame_def slice_bytes_def toy_decode1_def)
  have dec: "0 < int (length (secrets ?bad)) \<and>
      diffieHellmanDecrypt toy (shareSuite ?bad) (secrets ?bad ! nat 0) (diffieKey toy_blame) = Ok 235 \<and>
      \<not> PubPoly_Check toy (pubPoly ?bad) 0 235"
    by (simp add: toy_promise_def toy_blame_def diffieHellmanDecrypt_def)
  from VerifyBlame_cascade [of toy ?bad 0 toy_blame "toy_key 5" "toy_key 3" toy_insurers 2 2 "[9]"
      "[]" "[]"] sg hv dec n
  have j: "VerifyBlame toy ?bad 0 toy_blame = Ok ()"
    by blast
  have "(3::int) < 0 \<or> p_n toy_promise \<le> 3" by (simp add: toy_promise_def)
  with VerifyBlame_cascade [of toy toy_promise 3 toy_blame "toy_key 5" "toy_key 3" toy_insurers 2 2 "[9]"
      "[]" "[]"]
  have o: "VerifyBlame toy toy_promise 3 toy_blame = Err InvalidIndex"
    by blast
  have "sig_signature (bp_signature ?nil) = None" by simp
  with VerifyBlame_cascade [of toy ?bad 0 ?nil "toy_key 5" "toy_key 3" toy_insurers 2 2 "[9]"
      "[]" "[]"] n
  have nl: "VerifyBlame toy ?bad 0 ?nil = Err NilSignature"
    by blast
  have n1: "(0::int) \<le> 1 \<and> 1 < p_n ?bad" by (simp add: toy_promise_def)
  have sg1: "sig_signature (bp_signature toy_blame) = Some (toy_enc sigBlameMsg [7]) \<and>
            1 < int (length (insurers ?bad)) \<and>
            \<not> anon_Verify toy (sig_suite (bp_signature toy_blame)) sigBlameMsg [insurers ?bad ! nat 1]
              (toy_enc sigBlameMsg [7])"
    by (simp add: toy_blame_def toy_promise_def toy_enc_def)
  from VerifyBlame_cascade [of toy ?bad 1 toy_blame "toy_key 5" "toy_key 3" toy_insurers 2 2 "[9]"
      "[]" "[]"] n1 sg1
  have av: "VerifyBlame toy ?bad 1 toy_blame = Err AnonVerifyFailed"
    by blast
  have sg2: "sig_signature (bp_signature ?nop) = Some (toy_enc sigBlameMsg [7]) \<and>
            0 < int (length (insurers ?bad)) \<and>
            anon_Verify toy (sig_suite (bp_signature ?nop)) sigBlameMsg [insurers ?bad ! nat 0]
              (toy_enc sigBlameMsg [7]) \<and>
            \<not> proof_HashVerify toy (shareSuite ?bad) protocolName (diffieKey ?nop) (pubKey ?bad)
                (slice_bytes (diffieKeyProof ?nop))"
    by (simp add: toy_blame_def toy_promise_def slice_bytes_def toy_decode1_def)
  from VerifyBlame_cascade [of toy ?bad 0 ?nop "toy_key 5" "toy_key 3" toy_insurers 2 2 "[9]"
      "[]" "[]"] n sg2
  have hf: "VerifyBlame toy ?bad 0 ?nop = Err HashVerifyFailed"
    by blast
  from b u j o nl av hf show ?thesis by simp
qed

section \<open>Certification\<close>

text \<open>
  \<open>Init\<close> returns a well-formed state, and adding a signature or a blame proof keeps a state
  well formed and leaves its promise alone.
\<close>

lemma Init_wf: "Init X promise = Ok ps \<Longrightarrow> wf_state ps \<and> ps_Promise ps = promise"
  by (auto simp add: Init_def wf_state_def split: if_splits)

lemma AddSignature_wf:
  "wf_state ps \<Longrightarrow> AddSignature ps i sig = Ok ps' \<Longrightarrow> wf_state ps' \<and> ps_Promise ps' = ps_Promise ps"
  by (auto simp add: AddSignature_def wf_state_def split: if_splits)

lemma AddBlameProof_wf:
  "wf_state ps \<Longrightarrow> AddBlameProof ps i bl = Ok ps' \<Longrightarrow> wf_state ps' \<and> ps_Promise ps' = ps_Promise ps"
  by (auto simp add: AddBlameProof_def wf_state_def split: if_splits)

lemma VerifySignature_no_panic:
  assumes "0 \<le> i" "i < p_n p" "int (length (insurers p)) = p_n p"
  shows "VerifySignature X p i sig \<noteq> Panic q"
  using assms
  by (auto simp add: VerifySignature_def verifySignature_def go_index_def split: option.splits)

lemma VerifyBlame_no_panic:
  assumes "marshal_total X" "0 \<le> i" "i < p_n p" "int (length (insurers p)) = p_n p"
    "int (length (secrets p)) = p_n p"
  shows "VerifyBlame X p i bl \<noteq> Panic q"
proof -
  from assms(1) obtain buff where b: "Point_MarshalBinary X (diffieKey bl) = Some buff"
    by (auto simp add: marshal_total_def)
  from assms(2-5) show ?thesis
    by (auto simp add: VerifyBlame_def verifySignature_def go_index_def diffieHellmanDecrypt_def b
        split: option.splits)
qed

lemma certified_loop_eq:
  assumes m: "marshal_total X" and wf: "wf_state ps"
    and lens: "int (length (insurers (ps_Promise ps))) = p_n (ps_Promise ps)"
      "int (length (secrets (ps_Promise ps))) = p_n (ps_Promise ps)"
    and range: "\<forall>i \<in> set idx. 0 \<le> i \<and> i < p_n (ps_Promise ps)"
  shows "certified_loop X ps idx v =
           (if list_ex (valid_blame_at X ps) idx then Err ValidBlameProof
            else Ok (v + int (length (filter (valid_signature_at X ps) idx))))"
  using range
proof (induction idx arbitrary: v)
  case Nil
  show ?case by simp
next
  case (Cons i rest)
  let ?p = "ps_Promise ps"
  from Cons.prems have i: "0 \<le> i" "i < p_n ?p" by simp_all
  with wf have gi: "go_index (signatures ps) i = Ok (signatures ps ! nat i)"
      "go_index (blames ps) i = Ok (blames ps ! nat i)"
    by (simp_all add: wf_state_def go_index_def)
  have sg: "(case signatures ps ! nat i of
              None \<Rightarrow> Ok v
            | Some sig \<Rightarrow>
                (case VerifySignature X ?p i sig of
                   Ok _ \<Rightarrow> Ok (v + 1)
                 | Err _ \<Rightarrow> Ok v
                 | Panic q \<Rightarrow> Panic q)) = Ok (v + (if valid_signature_at X ps i then 1 else 0))"
  proof (cases "signatures ps ! nat i")
    case None
    then show ?thesis by (simp add: valid_signature_at_def gi)
  next
    case (Some sig)
    with VerifySignature_no_panic [OF i lens(1), of X sig] show ?thesis
      by (cases "VerifySignature X ?p i sig") (auto simp add: valid_signature_at_def gi)
  qed
  have bl: "(case blames ps ! nat i of
              None \<Rightarrow> Ok False
            | Some bl \<Rightarrow>
                (case VerifyBlame X ?p i bl of
                   Ok _ \<Rightarrow> Ok True
                 | Err _ \<Rightarrow> Ok False
                 | Panic q \<Rightarrow> Panic q)) = Ok (valid_blame_at X ps i)"
  proof (cases "blames ps ! nat i")
    case None
    then show ?thesis by (simp add: valid_blame_at_def gi)
  next
    case (Some b)
    with VerifyBlame_no_panic [OF m i lens, of b] show ?thesis
      by (cases "VerifyBlame X ?p i b") (auto simp add: valid_blame_at_def gi)
  qed
  from Cons.prems have "\<forall>i \<in> set rest. 0 \<le> i \<and> i < p_n ?p" by simp
  note IH = Cons.IH [OF this]
  show ?case
    by (simp add: gi sg bl IH)
qed

lemma VerifyPromise_lens:
  "VerifyPromise p key = Ok () \<Longrightarrow>
     int (length (insurers p)) = p_n p \<and> int (length (secrets p)) = p_n p"
  by (auto simp add: VerifyPromise_def split: if_splits)

lemma PromiseCertified_eq:
  assumes m: "marshal_total X" and wf: "wf_state ps"
  shows "PromiseCertified X ps key =
           (case VerifyPromise (ps_Promise ps) key of
              Ok _ \<Rightarrow>
                if some_valid_blame X ps then Err ValidBlameProof
                else if count_valid_signatures X ps < p_r (ps_Promise ps) then Err NotEnoughSignatures
                else Ok ()
            | Err e \<Rightarrow> Err e
            | Panic q \<Rightarrow> Panic q)"
proof (cases "VerifyPromise (ps_Promise ps) key")
  case (Ok u)
  then have "VerifyPromise (ps_Promise ps) key = Ok ()" by simp
  note lens = VerifyPromise_lens [OF this]
  have "\<forall>i \<in> set [0..p_n (ps_Promise ps) - 1]. 0 \<le> i \<and> i < p_n (ps_Promise ps)" by simp
  from certified_loop_eq [OF m wf conjunct1 [OF lens] conjunct2 [OF lens] this, of 0] Ok
  show ?thesis
    by (simp add: PromiseCertified_def some_valid_blame_def count_valid_signatures_def)
next
  case (Err e)
  then show ?thesis by (simp add: PromiseCertified_def)
next
  case (Panic q)
  then show ?thesis by (simp add: PromiseCertified_def)
qed

lemma VerifyPromise_no_panic: "VerifyPromise p key \<noteq> Panic q"
  by (simp add: VerifyPromise_def)

lemma list_ex_upto: "list_ex P [0..n - 1] \<longleftrightarrow> (\<exists>i. 0 \<le> i \<and> i < n \<and> P i)"
  by (auto simp add: list_ex_iff)

text \<open>
  Claim C3. For every well-formed state, point marshalling not failing:
  \<open>PromiseCertified\<close> returns nil exactly when \<open>VerifyPromise\<close> succeeds, no index of
  \<open>[0, n)\<close> holds a valid blame and at least \<open>r\<close> indices hold valid signatures. Once
  \<open>VerifyPromise\<close> has succeeded, one index holding a valid blame makes it return the
  valid-blame error whatever the signatures are; with no valid blame and fewer than \<open>r\<close>
  valid signatures it returns the not-enough-signatures error; an error of
  \<open>VerifyPromise\<close> is returned as it is. The result depends on the slots only through which
  indices hold a valid signature and which a valid blame: two well-formed states of the
  same promise that agree on these give the same result, so a slot holding an invalid
  signature or an invalid blame counts like an empty one.
\<close>

theorem PromiseCertified_characterisation:
  assumes m: "marshal_total X" and wf: "wf_state ps"
  shows
   "(PromiseCertified X ps key = Ok () \<longleftrightarrow>
       VerifyPromise (ps_Promise ps) key = Ok () \<and>
       (\<forall>i. 0 \<le> i \<and> i < p_n (ps_Promise ps) \<longrightarrow> \<not> valid_blame_at X ps i) \<and>
       p_r (ps_Promise ps) \<le> count_valid_signatures X ps) \<and>
    (\<forall>i. VerifyPromise (ps_Promise ps) key = Ok () \<and> 0 \<le> i \<and> i < p_n (ps_Promise ps) \<and>
         valid_blame_at X ps i \<longrightarrow> PromiseCertified X ps key = Err ValidBlameProof) \<and>
    (VerifyPromise (ps_Promise ps) key = Ok () \<and>
     (\<forall>i. 0 \<le> i \<and> i < p_n (ps_Promise ps) \<longrightarrow> \<not> valid_blame_at X ps i) \<and>
     count_valid_signatures X ps < p_r (ps_Promise ps) \<longrightarrow>
       PromiseCertified X ps key = Err NotEnoughSignatures) \<and>
    (\<forall>e. VerifyPromise (ps_Promise ps) key = Err e \<longrightarrow> PromiseCertified X ps key = Err e) \<and>
    (\<forall>ps'. wf_state ps' \<and> ps_Promise ps' = ps_Promise ps \<and>
          (\<forall>i. valid_signature_at X ps' i = valid_signature_at X ps i \<and>
               valid_blame_at X ps' i = valid_blame_at X ps i) \<longrightarrow>
          PromiseCertified X ps' key = PromiseCertified X ps key)"
proof -
  let ?p = "ps_Promise ps"
  note eq = PromiseCertified_eq [OF m wf, of key]
  have sb: "some_valid_blame X ps \<longleftrightarrow> (\<exists>i. 0 \<le> i \<and> i < p_n ?p \<and> valid_blame_at X ps i)"
    by (simp add: some_valid_blame_def list_ex_upto)
  have c1: "PromiseCertified X ps key = Ok () \<longleftrightarrow>
       VerifyPromise ?p key = Ok () \<and>
       (\<forall>i. 0 \<le> i \<and> i < p_n ?p \<longrightarrow> \<not> valid_blame_at X ps i) \<and>
       p_r ?p \<le> count_valid_signatures X ps"
    unfolding eq sb by (cases "VerifyPromise ?p key") auto
  have c2: "PromiseCertified X ps key = Err ValidBlameProof"
    if "VerifyPromise ?p key = Ok () \<and> 0 \<le> i \<and> i < p_n ?p \<and> valid_blame_at X ps i" for i
    unfolding eq sb using that by auto
  have c3: "PromiseCertified X ps key = Err NotEnoughSignatures"
    if "VerifyPromise ?p key = Ok () \<and>
        (\<forall>i. 0 \<le> i \<and> i < p_n ?p \<longrightarrow> \<not> valid_blame_at X ps i) \<and>
        count_valid_signatures X ps < p_r ?p"
    unfolding eq sb using that by auto
  have c4: "PromiseCertified X ps key = Err e" if "VerifyPromise ?p key = Err e" for e
    unfolding eq using that by simp
  have c5: "PromiseCertified X ps' key = PromiseCertified X ps key"
    if a: "wf_state ps' \<and> ps_Promise ps' = ps_Promise ps \<and>
          (\<forall>i. valid_signature_at X ps' i = valid_signature_at X ps i \<and>
               valid_blame_at X ps' i = valid_blame_at X ps i)" for ps'
  proof -
    from a have wf': "wf_state ps'" and same: "ps_Promise ps' = ps_Promise ps"
      and vs: "valid_signature_at X ps' = valid_signature_at X ps"
      and vb: "valid_blame_at X ps' = valid_blame_at X ps"
      by auto
    have "some_valid_blame X ps' = some_valid_blame X ps"
      by (simp add: some_valid_blame_def same vb)
    moreover have "count_valid_signatures X ps' = count_valid_signatures X ps"
      by (simp add: count_valid_signatures_def same vs)
    ultimately show ?thesis
      unfolding eq PromiseCertified_eq [OF m wf', of key] by (simp add: same)
  qed
  from c1 c2 c3 c4 c5 show ?thesis by blast
qed

lemma toy_state_wf: "wf_state toy_state"
  by (simp add: wf_state_def toy_state_def toy_promise_def)

lemma toy_valid_sigs:
  "valid_signature_at toy toy_state 0" "valid_signature_at toy toy_state 1"
  "\<not> valid_signature_at toy toy_state 2"
  using toy_enc_inj [of sigMsg "[13]" sigMsg "[7]"]
  by (auto simp add: valid_signature_at_def toy_state_def toy_promise_def go_index_def
      VerifySignature_def verifySignature_def Sign_def sign_def)

lemma toy_valid_blames:
  "\<not> valid_blame_at toy toy_state 0" "\<not> valid_blame_at toy toy_state 1"
  "\<not> valid_blame_at toy toy_state 2"
  by (simp_all add: valid_blame_at_def toy_state_def toy_promise_def go_index_def toy_blame_def
      VerifyBlame_def verifySignature_def diffieHellmanDecrypt_def slice_bytes_def toy_decode1_def)

lemma upto_0_2: "[0..(2::int)] = [0, 1, 2]"
  by (simp add: upto.simps)

lemma toy_count: "count_valid_signatures toy toy_state = 2"
proof -
  have "[0..p_n (ps_Promise toy_state) - 1] = [0, 1, 2]"
    by (simp add: toy_state_def toy_promise_def upto_0_2)
  then show ?thesis
    by (simp add: count_valid_signatures_def toy_valid_sigs)
qed

theorem PromiseCertified_characterisation_witness:
  "PromiseCertified toy toy_state 3 = Ok () \<and>
   PromiseCertified toy toy_state 4 = Err PubKeyDiffers \<and>
   PromiseCertified toy (toy_state\<lparr> signatures := [Some (Sign toy toy_promise 0 (toy_key 7) []),
                               Some (Sign toy toy_promise 1 (toy_key 11) []), None],
                             blames := [None, None, None] \<rparr>) 3 = Ok () \<and>
   PromiseCertified toy (toy_state\<lparr> ps_Promise := toy_promise\<lparr> secrets := [0, 56, 71] \<rparr> \<rparr>) 3
     = Err ValidBlameProof"
proof -
  note th = PromiseCertified_characterisation [OF toy_marshal_total toy_state_wf]
  have vp: "VerifyPromise (ps_Promise toy_state) 3 = Ok ()"
    by (simp add: VerifyPromise_def toy_state_def toy_promise_def)
  have nb: "\<forall>i. 0 \<le> i \<and> i < p_n (ps_Promise toy_state) \<longrightarrow> \<not> valid_blame_at toy toy_state i"
  proof (intro allI impI)
    fix i :: int assume "0 \<le> i \<and> i < p_n (ps_Promise toy_state)"
    then have "i = 0 \<or> i = 1 \<or> i = 2" by (auto simp add: toy_state_def toy_promise_def)
    with toy_valid_blames show "\<not> valid_blame_at toy toy_state i" by auto
  qed
  have r: "p_r (ps_Promise toy_state) \<le> count_valid_signatures toy toy_state"
    by (simp add: toy_count) (simp add: toy_state_def toy_promise_def)
  from th [of 3] vp nb r have a: "PromiseCertified toy toy_state 3 = Ok ()" by blast
  have "VerifyPromise (ps_Promise toy_state) 4 = Err PubKeyDiffers"
    by (simp add: VerifyPromise_def toy_state_def toy_promise_def)
  with th [of 4] have b: "PromiseCertified toy toy_state 4 = Err PubKeyDiffers" by blast
  let ?ps' = "toy_state\<lparr> signatures := [Some (Sign toy toy_promise 0 (toy_key 7) []),
                               Some (Sign toy toy_promise 1 (toy_key 11) []), None],
                             blames := [None, None, None] \<rparr>"
  have same: "wf_state ?ps' \<and> ps_Promise ?ps' = ps_Promise toy_state \<and>
          (\<forall>i. valid_signature_at toy ?ps' i = valid_signature_at toy toy_state i \<and>
               valid_blame_at toy ?ps' i = valid_blame_at toy toy_state i)"
  proof (intro conjI allI)
    show "wf_state ?ps'" by (simp add: wf_state_def toy_state_def toy_promise_def)
    show "ps_Promise ?ps' = ps_Promise toy_state" by simp
    fix i :: int
    consider "i = 0" | "i = 1" | "i = 2" | "i < 0 \<or> 2 < i" by linarith
    then show "valid_signature_at toy ?ps' i = valid_signature_at toy toy_state i"
    proof cases
      case 4
      then show ?thesis
        by (auto simp add: valid_signature_at_def toy_state_def go_index_def)
    next
      case 3
      with toy_valid_sigs(3) show ?thesis
        by (simp add: valid_signature_at_def go_index_def toy_state_def)
    qed (simp_all add: valid_signature_at_def go_index_def toy_state_def)
    consider "i = 0" | "i = 1" | "i = 2" | "i < 0 \<or> 2 < i" by linarith
    then show "valid_blame_at toy ?ps' i = valid_blame_at toy toy_state i"
    proof cases
      case 1
      with toy_valid_blames(1) show ?thesis
        by (simp add: valid_blame_at_def go_index_def toy_state_def)
    next
      case 4
      then show ?thesis
        by (auto simp add: valid_blame_at_def toy_state_def go_index_def)
    qed (simp_all add: valid_blame_at_def go_index_def toy_state_def)
  qed
  with th [of 3] a have c: "PromiseCertified toy ?ps' 3 = Ok ()" by metis
  let ?bad = "toy_state\<lparr> ps_Promise := toy_promise\<lparr> secrets := [0, 56, 71] \<rparr> \<rparr>"
  have wfb: "wf_state ?bad" by (simp add: wf_state_def toy_state_def toy_promise_def)
  have vpb: "VerifyPromise (ps_Promise ?bad) 3 = Ok ()"
    by (simp add: VerifyPromise_def toy_promise_def)
  have vbb: "(0::int) \<le> 0 \<and> 0 < p_n (ps_Promise ?bad) \<and> valid_blame_at toy ?bad 0"
    by (simp add: valid_blame_at_def toy_state_def toy_promise_def go_index_def toy_blame_def
      VerifyBlame_def verifySignature_def diffieHellmanDecrypt_def slice_bytes_def toy_decode1_def)
  from PromiseCertified_characterisation [OF toy_marshal_total wfb, of 3] vpb vbb
  have d: "PromiseCertified toy ?bad 3 = Err ValidBlameProof" by blast
  from a b c d show ?thesis by simp
qed

section \<open>The codec: buffers and the little-endian prefix\<close>

lemma le_word: "(ucast (ucast w :: 8 word) OR push_bit 8 (ucast (ucast (drop_bit 8 w) :: 8 word))
   OR push_bit 16 (ucast (ucast (drop_bit 16 w) :: 8 word))
   OR push_bit 24 (ucast (ucast (drop_bit 24 w) :: 8 word))) = (w :: 32 word)"
proof (rule bit_word_eqI)
  fix n assume "n < LENGTH(32)"
  then have n: "n < 32" by simp
  consider "n < 8" | "8 \<le> n" "n < 16" | "16 \<le> n" "n < 24" | "24 \<le> n" "n < 32"
    using n by linarith
  then show "bit (ucast (ucast w :: 8 word) OR push_bit 8 (ucast (ucast (drop_bit 8 w) :: 8 word))
   OR push_bit 16 (ucast (ucast (drop_bit 16 w) :: 8 word))
   OR push_bit 24 (ucast (ucast (drop_bit 24 w) :: 8 word)) :: 32 word) n = bit w n"
    by cases (auto simp add: bit_simps)
qed

lemma Uint32_le_bytes: "Uint32 (le_bytes w @ rest) = Ok w"
  by (simp add: Uint32_def le_bytes_def le_word)

lemma length_le_bytes [simp]: "length (le_bytes w) = 4"
  by (simp add: le_bytes_def)

lemma uint_of_nat32: "n < 2 ^ 32 \<Longrightarrow> uint (of_nat n :: 32 word) = int n"
  by (simp add: uint_nat unat_of_nat)

lemma uint_of_int32: "0 \<le> n \<Longrightarrow> n < 2 ^ 32 \<Longrightarrow> uint (word_of_int n :: 32 word) = n"
  by (simp add: uint_word_of_int take_bit_int_eq_self)

lemma make_bytes_Ok: "0 \<le> n \<Longrightarrow> make_bytes n = Ok (replicate (nat n) 0)"
  by (simp add: make_bytes_def)

lemma PutUint32_mid:
  "length z = 4 \<Longrightarrow> pos = int (length a) \<Longrightarrow> PutUint32 (a @ z @ c) pos v = Ok (a @ le_bytes v @ c)"
  by (simp add: PutUint32_def)

lemma copy_at_mid:
  "length z = length src \<Longrightarrow> pos = int (length a) \<Longrightarrow> copy_at (a @ z @ c) pos src = Ok (a @ src @ c)"
  by (simp add: copy_at_def)

lemma go_slice_mid:
  "lo = int (length a) \<Longrightarrow> hi = lo + int (length b) \<Longrightarrow> go_slice (a @ b @ c) lo hi = Ok b"
  by (simp add: go_slice_def)

lemma go_slice_from_app: "lo = int (length a) \<Longrightarrow> go_slice_from (a @ b) lo = Ok b"
  by (simp add: go_slice_from_def go_slice_def)

lemma PromiseSignature_MarshalBinary_eq:
  "PromiseSignature_MarshalBinary x =
     Ok (le_bytes (of_nat (length (slice_bytes (sig_signature x)))) @ slice_bytes (sig_signature x))"
proof -
  let ?s = "slice_bytes (sig_signature x)"
  have m: "make_bytes (PromiseSignature_MarshalSize x) = Ok (replicate 4 0 @ replicate (length ?s) 0)"
    by (simp add: make_bytes_def PromiseSignature_MarshalSize_def uint32Size_def nat_add_distrib
        replicate_add)
  have p: "PutUint32 ([] @ replicate 4 0 @ replicate (length ?s) 0) 0 v
             = Ok ([] @ le_bytes v @ replicate (length ?s) 0)" for v
    by (rule PutUint32_mid) simp_all
  have c: "copy_at (le_bytes v @ replicate (length ?s) 0 @ []) (int uint32Size) ?s
             = Ok (le_bytes v @ ?s @ [])" for v
    by (rule copy_at_mid) (simp_all add: uint32Size_def)
  from p c show ?thesis
    by (simp add: PromiseSignature_MarshalBinary_def m)
qed

lemma PromiseSignature_UnmarshalBinary_eq:
  assumes "length s < 2 ^ 32"
  shows "PromiseSignature_UnmarshalBinary p (le_bytes (of_nat (length s)) @ s)
           = Ok (p\<lparr> sig_signature := Some s \<rparr>)"
proof -
  have g: "go_slice (le_bytes (of_nat (length s)) @ s @ []) (int uint32Size)
             (int uint32Size + int (length s)) = Ok s"
    by (rule go_slice_mid) (simp_all add: uint32Size_def)
  from assms g show ?thesis
    by (simp add: PromiseSignature_UnmarshalBinary_def Uint32_le_bytes uint_of_nat32 uint32Size_def)
qed

lemma PromiseSignature_UnmarshalBinary_total:
  "PromiseSignature_UnmarshalBinary p buf \<noteq> Panic q"
  by (auto simp add: PromiseSignature_UnmarshalBinary_def Uint32_def go_slice_def uint32Size_def
      Let_def rbind_def split: result.splits)

section \<open>The codec of a blame proof\<close>

lemma BlameProof_MarshalBinary_eq:
  assumes pb: "Point_MarshalBinary X (diffieKey bp) = Some pb"
    and len: "length pb = PointLen X (bp_suite bp)"
  shows "BlameProof_MarshalBinary X bp =
           Ok (le_bytes (word_of_int (int (length (slice_bytes (diffieKeyProof bp)))))
               @ le_bytes (word_of_int (PromiseSignature_MarshalSize (bp_signature bp)))
               @ pb @ slice_bytes (diffieKeyProof bp)
               @ le_bytes (of_nat (length (slice_bytes (sig_signature (bp_signature bp)))))
               @ slice_bytes (sig_signature (bp_signature bp)))"
proof -
  let ?zk = "slice_bytes (diffieKeyProof bp)"
  let ?s = "slice_bytes (sig_signature (bp_signature bp))"
  let ?sb = "le_bytes (of_nat (length ?s)) @ ?s"
  let ?w1 = "le_bytes (word_of_int (int (length ?zk)))"
  let ?w2 = "le_bytes (word_of_int (PromiseSignature_MarshalSize (bp_signature bp)))"
  let ?z4 = "replicate 4 (0::byte)"
  let ?zp = "replicate (length pb) (0::byte)"
  let ?zz = "replicate (length ?zk) (0::byte)"
  let ?zs = "replicate (4 + length ?s) (0::byte)"
  have m: "make_bytes (BlameProof_MarshalSize X bp) = Ok (?z4 @ ?z4 @ ?zp @ ?zz @ ?zs)"
    by (simp add: make_bytes_def BlameProof_MarshalSize_def PromiseSignature_MarshalSize_def
        uint32Size_def len nat_add_distrib flip: replicate_add)
  have s1: "PutUint32 (?z4 @ ?z4 @ ?zp @ ?zz @ ?zs) 0 v = Ok (le_bytes v @ ?z4 @ ?zp @ ?zz @ ?zs)" for v
    using PutUint32_mid [of ?z4 0 "[]" "?z4 @ ?zp @ ?zz @ ?zs" v] by simp
  have s2: "PutUint32 (a @ ?z4 @ ?zp @ ?zz @ ?zs) (int uint32Size) v
              = Ok (a @ le_bytes v @ ?zp @ ?zz @ ?zs)" if "length a = 4" for a v
    using PutUint32_mid [of ?z4 "int uint32Size" a "?zp @ ?zz @ ?zs" v] that
    by (simp add: uint32Size_def)
  have s3: "copy_at (a @ b @ ?zp @ ?zz @ ?zs) (2 * int uint32Size) pb
              = Ok (a @ b @ pb @ ?zz @ ?zs)" if "length a = 4" "length b = 4" for a b
    using copy_at_mid [of ?zp pb "2 * int uint32Size" "a @ b" "?zz @ ?zs"] that
    by (simp add: uint32Size_def)
  have s4: "copy_at (a @ b @ pb @ ?zz @ ?zs) (2 * int uint32Size + int (PointLen X (bp_suite bp))) ?zk
              = Ok (a @ b @ pb @ ?zk @ ?zs)" if "length a = 4" "length b = 4" for a b
    using copy_at_mid [of ?zz ?zk "2 * int uint32Size + int (PointLen X (bp_suite bp))"
        "a @ b @ pb" ?zs] that
    by (simp add: uint32Size_def len)
  have s5: "copy_at (a @ b @ pb @ ?zk @ ?zs)
              (2 * int uint32Size + int (PointLen X (bp_suite bp)) + int (length ?zk)) ?sb
              = Ok (a @ b @ pb @ ?zk @ ?sb)" if "length a = 4" "length b = 4" for a b
    using copy_at_mid [of ?zs ?sb
        "2 * int uint32Size + int (PointLen X (bp_suite bp)) + int (length ?zk)"
        "a @ b @ pb @ ?zk" "[]"] that
    by (simp add: uint32Size_def len)
  show ?thesis
    unfolding BlameProof_MarshalBinary_def Let_def
    by (simp add: m s1 s2 s3 s4 s5 pb PromiseSignature_MarshalBinary_eq)
qed

lemma BlameProof_UnmarshalBinary_eq:
  assumes un: "Point_UnmarshalBinary X (bp_suite bp) pb = Some dk"
    and len: "length pb = PointLen X (bp_suite bp)"
    and zk: "length zk < 2 ^ 32"
    and s: "4 + length s < 2 ^ 32"
  shows "BlameProof_UnmarshalBinary X bp
           (le_bytes (word_of_int (int (length zk)))
             @ le_bytes (word_of_int (int uint32Size + int (length s)))
             @ pb @ zk @ le_bytes (of_nat (length s)) @ s)
         = Ok (bp\<lparr> diffieKey := dk, diffieKeyProof := Some zk,
                   bp_signature := \<lparr> sig_suite = bp_suite bp, sig_signature = Some s \<rparr> \<rparr>)"
proof -
  let ?w1 = "le_bytes (word_of_int (int (length zk)))"
  let ?w2 = "le_bytes (word_of_int (int uint32Size + int (length s)))"
  let ?sb = "le_bytes (of_nat (length s)) @ s"
  let ?buf = "?w1 @ ?w2 @ pb @ zk @ ?sb"
  have u1: "Uint32 ?buf = Ok (word_of_int (int (length zk)))"
    by (rule Uint32_le_bytes)
  have g1: "go_slice_from ?buf (int uint32Size) = Ok (?w2 @ pb @ zk @ ?sb)"
    by (rule go_slice_from_app) (simp add: uint32Size_def)
  have u2: "Uint32 (?w2 @ pb @ zk @ ?sb) = Ok (word_of_int (int uint32Size + int (length s)))"
    by (rule Uint32_le_bytes)
  have v1: "uint (word_of_int (int (length zk)) :: 32 word) = int (length zk)"
    using zk by (simp add: uint_of_nat32)
  have v2: "uint (word_of_int (int uint32Size + int (length s)) :: 32 word)
              = int uint32Size + int (length s)"
    by (rule uint_of_int32) (use s in \<open>simp_all add: uint32Size_def\<close>)
  have g2: "go_slice ?buf (2 * int uint32Size) (2 * int uint32Size + int (PointLen X (bp_suite bp)))
              = Ok pb"
    using go_slice_mid [of "2 * int uint32Size" "?w1 @ ?w2"
        "2 * int uint32Size + int (PointLen X (bp_suite bp))" pb "zk @ ?sb"]
    by (simp add: uint32Size_def len)
  have g3: "go_slice ?buf (2 * int uint32Size + int (PointLen X (bp_suite bp)))
              (2 * int uint32Size + int (PointLen X (bp_suite bp)) + int (length zk)) = Ok zk"
    using go_slice_mid [of "2 * int uint32Size + int (PointLen X (bp_suite bp))" "?w1 @ ?w2 @ pb"
        "2 * int uint32Size + int (PointLen X (bp_suite bp)) + int (length zk)" zk ?sb]
    by (simp add: uint32Size_def len)
  have g4: "go_slice ?buf (2 * int uint32Size + int (PointLen X (bp_suite bp)) + int (length zk))
              (2 * int uint32Size + int (PointLen X (bp_suite bp)) + int (length zk)
                 + (int uint32Size + int (length s))) = Ok ?sb"
    using go_slice_mid [of "2 * int uint32Size + int (PointLen X (bp_suite bp)) + int (length zk)"
        "?w1 @ ?w2 @ pb @ zk"
        "2 * int uint32Size + int (PointLen X (bp_suite bp)) + int (length zk)
           + (int uint32Size + int (length s))"
        ?sb "[]"]
    by (simp add: uint32Size_def len)
  have su: "PromiseSignature_UnmarshalBinary (PromiseSignature_UnmarshalInit (bp_suite bp)) ?sb
              = Ok \<lparr> sig_suite = bp_suite bp, sig_signature = Some s \<rparr>"
    using s by (simp add: PromiseSignature_UnmarshalBinary_eq PromiseSignature_UnmarshalInit_def)
  have l: "\<not> int (length ?buf) < 2 * int uint32Size + int (PointLen X (bp_suite bp))"
     "\<not> int (length ?buf) < 2 * int uint32Size + int (PointLen X (bp_suite bp))
           + int (length zk) + (int uint32Size + int (length s))"
    by (simp_all add: uint32Size_def len)
  show ?thesis
    unfolding BlameProof_UnmarshalBinary_def Let_def
    by (simp only: l if_False u1 g1 u2 rbind_Ok v1 v2 g2 un option.case g3 g4 su)
qed

lemma Uint32_Ok: "4 \<le> length b \<Longrightarrow> \<exists>w. Uint32 b = Ok w"
  by (simp add: Uint32_def)

lemma go_slice_Ok:
  "0 \<le> lo \<Longrightarrow> lo \<le> hi \<Longrightarrow> hi \<le> int (length b) \<Longrightarrow>
     \<exists>c. go_slice b lo hi = Ok c \<and> int (length c) = hi - lo"
  by (simp add: go_slice_def)

lemma BlameProof_UnmarshalBinary_total:
  "BlameProof_UnmarshalBinary X bp buf \<noteq> Panic q"
proof (cases "int (length buf) < 2 * int uint32Size + int (PointLen X (bp_suite bp))")
  case True
  then show ?thesis by (simp add: BlameProof_UnmarshalBinary_def Let_def)
next
  case False
  let ?P = "int (PointLen X (bp_suite bp))"
  from False have len: "8 + ?P \<le> int (length buf)" by (simp add: uint32Size_def)
  then obtain w1 where w1: "Uint32 buf = Ok w1"
    using Uint32_Ok [of buf] by auto
  from len obtain rest where rest: "go_slice_from buf (int uint32Size) = Ok rest"
    "int (length rest) = int (length buf) - 4"
    using go_slice_Ok [of 4 "int (length buf)" buf] by (auto simp add: go_slice_from_def uint32Size_def)
  with len obtain w2 where w2: "Uint32 rest = Ok w2"
    using Uint32_Ok [of rest] by auto
  from len obtain pb where pb: "go_slice buf (2 * int uint32Size) (2 * int uint32Size + ?P) = Ok pb"
    using go_slice_Ok [of 8 "8 + ?P" buf] by (auto simp add: uint32Size_def)
  show ?thesis
  proof (cases "Point_UnmarshalBinary X (bp_suite bp) pb")
    case None
    with False show ?thesis
      by (simp add: BlameProof_UnmarshalBinary_def Let_def w1 rest w2 pb)
  next
    case (Some dk)
    show ?thesis
    proof (cases "int (length buf) < 2 * int uint32Size + ?P + uint w1 + uint w2")
      case True
      with False Some show ?thesis
        by (simp add: BlameProof_UnmarshalBinary_def Let_def w1 rest w2 pb)
    next
      case big: False
      from big have b3: "8 + ?P + uint w1 + uint w2 \<le> int (length buf)"
        by (simp add: uint32Size_def)
      then have b1: "8 + ?P + uint w1 \<le> int (length buf)"
        using uint_nonnegative [of w2] by linarith
      have b2: "8 + ?P \<le> 8 + ?P + uint w1"
        using uint_nonnegative [of w1] by linarith
      from go_slice_Ok [OF _ b2 b1] obtain zk where
        zk: "go_slice buf (2 * int uint32Size + ?P) (2 * int uint32Size + ?P + uint w1) = Ok zk"
        by (auto simp add: uint32Size_def)
      have b4: "8 + ?P + uint w1 \<le> 8 + ?P + uint w1 + uint w2"
        using uint_nonnegative [of w2] by linarith
      have b5: "0 \<le> 8 + ?P + uint w1"
        using uint_nonnegative [of w1] by linarith
      from go_slice_Ok [OF b5 b4 b3] obtain sb where
        sb: "go_slice buf (2 * int uint32Size + ?P + uint w1)
               (2 * int uint32Size + ?P + uint w1 + uint w2) = Ok sb"
        by (auto simp add: uint32Size_def)
      from False big Some show ?thesis
        using PromiseSignature_UnmarshalBinary_total
                [of "PromiseSignature_UnmarshalInit (bp_suite bp)" sb q]
        by (cases "PromiseSignature_UnmarshalBinary (PromiseSignature_UnmarshalInit (bp_suite bp)) sb")
           (simp_all add: BlameProof_UnmarshalBinary_def Let_def w1 rest w2 pb zk sb)
    qed
  qed
qed

section \<open>Unmarshalling short buffers\<close>

text \<open>
  Claim C9 holds for a \<open>PromiseSignature\<close> and a \<open>BlameProof\<close>: by
  \<open>PromiseSignature_UnmarshalBinary_total\<close> and \<open>BlameProof_UnmarshalBinary_total\<close> their
  \<open>UnmarshalBinary\<close> never panics, on any buffer. It fails for a \<open>Promise\<close>, whose
  \<open>UnmarshalBinary\<close> checks no length: on the empty buffer the first read of a length
  prefix panics, whatever the capacity, an index being bounded by the length; and on a
  buffer without spare capacity that holds the three prefixes and nothing else the slice of
  the public key does.
\<close>

theorem Promise_UnmarshalBinary_panics:
  "Promise_UnmarshalBinary X p [] = Panic IndexOutOfRange \<and>
   Promise_UnmarshalBinary toy p (le_bytes 1 @ le_bytes 1 @ le_bytes 1) = Panic SliceOutOfRange"
proof -
  let ?buf = "le_bytes 1 @ le_bytes 1 @ le_bytes 1"
  have a: "Promise_UnmarshalBinary X p [] = Panic IndexOutOfRange"
    by (simp add: Promise_UnmarshalBinary_def Uint32_def)
  have u: "Uint32 ?buf = Ok 1" by (rule Uint32_le_bytes)
  have g1: "go_slice_from ?buf (int uint32Size) = Ok (le_bytes 1 @ le_bytes 1)"
    by (rule go_slice_from_app) (simp add: uint32Size_def)
  have g2: "go_slice_from ?buf (2 * int uint32Size) = Ok (le_bytes 1)"
    using go_slice_from_app [of "2 * int uint32Size" "le_bytes 1 @ le_bytes 1" "le_bytes 1"]
    by (simp add: uint32Size_def)
  have u2: "Uint32 (le_bytes 1 @ le_bytes 1) = Ok 1" by (rule Uint32_le_bytes)
  have u3: "Uint32 (le_bytes 1) = Ok 1" using Uint32_le_bytes [of 1 "[]"] by simp
  have g3: "go_slice ?buf (3 * int uint32Size) (3 * int uint32Size + 1) = Panic SliceOutOfRange"
    by (simp add: go_slice_def uint32Size_def)
  have "Promise_UnmarshalBinary toy p ?buf = Panic SliceOutOfRange"
    unfolding Promise_UnmarshalBinary_def Let_def
    by (simp add: u g1 g2 u2 u3 g3)
  with a show ?thesis by simp
qed

section \<open>The codec of a promise\<close>

lemma marshal_insurers_eq:
  assumes "\<forall>k \<in> set ks. \<exists>b. Point_MarshalBinary X k = Some b \<and> length b = L"
    and "int (length a) = bufPos + i * int L"
  shows "marshal_insurers X (a @ replicate (length ks * L) 0 @ c) bufPos (int L) ks i
           = Ok (a @ concat (map (\<lambda>k. the (Point_MarshalBinary X k)) ks) @ c)"
  using assms
proof (induction ks arbitrary: a i)
  case Nil
  then show ?case by simp
next
  case (Cons k ks)
  from Cons.prems(1) obtain b where b: "Point_MarshalBinary X k = Some b" "length b = L"
    by auto
  have cp: "copy_at (a @ replicate L 0 @ replicate (length ks * L) 0 @ c) (bufPos + i * int L) b
              = Ok (a @ b @ replicate (length ks * L) 0 @ c)"
    by (rule copy_at_mid) (simp_all add: b Cons.prems(2))
  have pos: "int (length (a @ b)) = bufPos + (i + 1) * int L"
    using Cons.prems(2) b by (simp add: algebra_simps)
  from Cons.prems(1) have rest: "\<forall>k \<in> set ks. \<exists>b. Point_MarshalBinary X k = Some b \<and> length b = L"
    by simp
  from Cons.IH [OF rest pos] cp show ?case
    by (simp add: b replicate_add)
qed

lemma marshal_secrets_eq:
  assumes "\<forall>k \<in> set ks. \<exists>b. Secret_MarshalBinary X k = Some b \<and> length b = L"
    and "int (length a) = bufPos + i * int L"
  shows "marshal_secrets X (a @ replicate (length ks * L) 0 @ c) bufPos (int L) ks i
           = Ok (a @ concat (map (\<lambda>k. the (Secret_MarshalBinary X k)) ks) @ c)"
  using assms
proof (induction ks arbitrary: a i)
  case Nil
  then show ?case by simp
next
  case (Cons k ks)
  from Cons.prems(1) obtain b where b: "Secret_MarshalBinary X k = Some b" "length b = L"
    by auto
  have cp: "copy_at (a @ replicate L 0 @ replicate (length ks * L) 0 @ c) (bufPos + i * int L) b
              = Ok (a @ b @ replicate (length ks * L) 0 @ c)"
    by (rule copy_at_mid) (simp_all add: b Cons.prems(2))
  have pos: "int (length (a @ b)) = bufPos + (i + 1) * int L"
    using Cons.prems(2) b by (simp add: algebra_simps)
  from Cons.prems(1) have rest: "\<forall>k \<in> set ks. \<exists>b. Secret_MarshalBinary X k = Some b \<and> length b = L"
    by simp
  from Cons.IH [OF rest pos] cp show ?case
    by (simp add: b replicate_add)
qed

lemma upto_shift: "[i..i + int (Suc n) - 1] = i # [i + 1..i + 1 + int n - 1]"
  by (simp add: upto_rec1)

lemma unmarshal_insurers_eq:
  assumes "\<forall>k \<in> set ks. point_codec X su k"
    and "int (length a) = bufPos + i * int (PointLen X su)"
  shows "unmarshal_insurers X su (a @ concat (map (\<lambda>k. the (Point_MarshalBinary X k)) ks) @ c)
           bufPos (int (PointLen X su)) [i..i + int (length ks) - 1] = Ok ks"
  using assms
proof (induction ks arbitrary: a i)
  case Nil
  then show ?case by simp
next
  case (Cons k ks)
  let ?L = "PointLen X su"
  let ?enc = "\<lambda>k. the (Point_MarshalBinary X k)"
  from Cons.prems(1) obtain b where b: "Point_MarshalBinary X k = Some b" "length b = ?L"
      "Point_UnmarshalBinary X su b = Some k"
    by (auto simp add: point_codec_def)
  have gs: "go_slice (a @ b @ concat (map ?enc ks) @ c) (bufPos + i * int ?L)
              (bufPos + i * int ?L + int ?L) = Ok b"
    by (rule go_slice_mid) (simp_all add: b Cons.prems(2))
  have pos: "int (length (a @ b)) = bufPos + (i + 1) * int ?L"
    using Cons.prems(2) b by (simp add: algebra_simps)
  from Cons.prems(1) have rest: "\<forall>k \<in> set ks. point_codec X su k" by simp
  have idx: "[i..i + int (length (k # ks)) - 1] = i # [i + 1..i + 1 + int (length ks) - 1]"
    using upto_shift [of i "length ks"] by simp
  from Cons.IH [OF rest pos] gs show ?case
    unfolding idx by (simp add: b Let_def)
qed

lemma unmarshal_secrets_eq:
  assumes "\<forall>k \<in> set ks. secret_codec X su k"
    and "int (length a) = bufPos + i * int (SecretLen X su)"
  shows "unmarshal_secrets X su (a @ concat (map (\<lambda>k. the (Secret_MarshalBinary X k)) ks) @ c)
           bufPos (int (SecretLen X su)) [i..i + int (length ks) - 1] = Ok ks"
  using assms
proof (induction ks arbitrary: a i)
  case Nil
  then show ?case by simp
next
  case (Cons k ks)
  let ?L = "SecretLen X su"
  let ?enc = "\<lambda>k. the (Secret_MarshalBinary X k)"
  from Cons.prems(1) obtain b where b: "Secret_MarshalBinary X k = Some b" "length b = ?L"
      "Secret_UnmarshalBinary X su b = Some k"
    by (auto simp add: secret_codec_def)
  have gs: "go_slice (a @ b @ concat (map ?enc ks) @ c) (bufPos + i * int ?L)
              (bufPos + i * int ?L + int ?L) = Ok b"
    by (rule go_slice_mid) (simp_all add: b Cons.prems(2))
  have pos: "int (length (a @ b)) = bufPos + (i + 1) * int ?L"
    using Cons.prems(2) b by (simp add: algebra_simps)
  from Cons.prems(1) have rest: "\<forall>k \<in> set ks. secret_codec X su k" by simp
  have idx: "[i..i + int (length (k # ks)) - 1] = i # [i + 1..i + 1 + int (length ks) - 1]"
    using upto_shift [of i "length ks"] by simp
  from Cons.IH [OF rest pos] gs show ?case
    unfolding idx by (simp add: b Let_def)
qed

lemma length_concat_fixed:
  "\<forall>k \<in> set ks. length (f k) = L \<Longrightarrow> length (concat (map f ks)) = length ks * L"
  by (induction ks) simp_all

lemma equal_loop_same:
  assumes "secrets p2 = secrets p" "insurers p2 = insurers p"
    and "\<forall>i \<in> set idx. 0 \<le> i \<and> i < int (length (secrets p)) \<and> i < int (length (insurers p))"
  shows "equal_loop p p2 idx = Ok True"
  using assms(3)
proof (induction idx)
  case Nil
  show ?case by simp
next
  case (Cons i idx)
  then show ?case by (simp add: assms(1,2) go_index_def)
qed

lemma make_bytes_int: "make_bytes (int k) = Ok (replicate k 0)"
  by (simp add: make_bytes_def)

lemma Promise_MarshalBinary_eq:
  assumes pop: "populated_promise X p"
  shows "Promise_MarshalBinary X p =
           Ok (le_bytes (word_of_int (p_n p)) @ le_bytes (word_of_int (p_t p))
               @ le_bytes (word_of_int (p_r p))
               @ the (Point_MarshalBinary X (pubKey p))
               @ the (PubPoly_MarshalBinary X (pubPoly p))
               @ concat (map (\<lambda>k. the (Point_MarshalBinary X k)) (insurers p))
               @ concat (map (\<lambda>k. the (Secret_MarshalBinary X k)) (secrets p)))"
proof -
  let ?su = "shareSuite p"
  let ?PL = "PointLen X ?su"
  let ?SL = "SecretLen X ?su"
  let ?QL = "PubPoly_MarshalSize X (pubPoly p)"
  let ?encP = "\<lambda>k. the (Point_MarshalBinary X k)"
  let ?encS = "\<lambda>k. the (Secret_MarshalBinary X k)"
  let ?z4 = "replicate 4 (0::byte)"
  let ?zp = "replicate ?PL (0::byte)"
  let ?zq = "replicate ?QL (0::byte)"
  let ?zi = "replicate (length (insurers p) * ?PL) (0::byte)"
  let ?zs = "replicate (length (secrets p) * ?SL) (0::byte)"
  from pop have n: "0 \<le> p_n p" "int (length (insurers p)) = p_n p" "int (length (secrets p)) = p_n p"
    by (simp_all add: populated_promise_def)
  from pop obtain pkb where pkb: "Point_MarshalBinary X (pubKey p) = Some pkb" "length pkb = ?PL"
    by (auto simp add: populated_promise_def point_codec_def)
  from pop obtain plb where plb: "PubPoly_MarshalBinary X (pubPoly p) = Some plb" "length plb = ?QL"
    by (auto simp add: populated_promise_def poly_codec_def)
  from pop have ins: "\<forall>k \<in> set (insurers p). \<exists>b. Point_MarshalBinary X k = Some b \<and> length b = ?PL"
    by (auto simp add: populated_promise_def point_codec_def)
  from pop have secs: "\<forall>k \<in> set (secrets p). \<exists>b. Secret_MarshalBinary X k = Some b \<and> length b = ?SL"
    by (auto simp add: populated_promise_def secret_codec_def)
  have "Promise_MarshalSize X p = 12 + int ?PL + int ?QL + p_n p * int ?PL + p_n p * int ?SL"
    by (simp add: Promise_MarshalSize_def uint32Size_def)
  also have "\<dots> = 12 + int ?PL + int ?QL + int (length (insurers p)) * int ?PL
                  + int (length (secrets p)) * int ?SL"
    by (simp only: n(2,3))
  also have "\<dots> = int (4 + (4 + (4 + (?PL + (?QL + (length (insurers p) * ?PL
                   + length (secrets p) * ?SL))))))"
    by simp
  finally have sz: "Promise_MarshalSize X p
              = int (4 + (4 + (4 + (?PL + (?QL + (length (insurers p) * ?PL
                   + length (secrets p) * ?SL))))))" .
  have m: "make_bytes (Promise_MarshalSize X p) = Ok (?z4 @ ?z4 @ ?z4 @ ?zp @ ?zq @ ?zi @ ?zs)"
    unfolding sz by (simp only: make_bytes_int replicate_add)
  have s1: "PutUint32 (?z4 @ ?z4 @ ?z4 @ ?zp @ ?zq @ ?zi @ ?zs) 0 v
              = Ok (le_bytes v @ ?z4 @ ?z4 @ ?zp @ ?zq @ ?zi @ ?zs)" for v
    using PutUint32_mid [of ?z4 0 "[]" "?z4 @ ?z4 @ ?zp @ ?zq @ ?zi @ ?zs" v] by simp
  have s2: "PutUint32 (a @ ?z4 @ ?z4 @ ?zp @ ?zq @ ?zi @ ?zs) (int uint32Size) v
              = Ok (a @ le_bytes v @ ?z4 @ ?zp @ ?zq @ ?zi @ ?zs)" if "length a = 4" for a v
    using PutUint32_mid [of ?z4 "int uint32Size" a "?z4 @ ?zp @ ?zq @ ?zi @ ?zs" v] that
    by (simp add: uint32Size_def)
  have s3: "PutUint32 (a @ b @ ?z4 @ ?zp @ ?zq @ ?zi @ ?zs) (2 * int uint32Size) v
              = Ok (a @ b @ le_bytes v @ ?zp @ ?zq @ ?zi @ ?zs)"
    if "length a = 4" "length b = 4" for a b v
    using PutUint32_mid [of ?z4 "2 * int uint32Size" "a @ b" "?zp @ ?zq @ ?zi @ ?zs" v] that
    by (simp add: uint32Size_def)
  have s4: "copy_at (a @ ?zp @ ?zq @ ?zi @ ?zs) (3 * int uint32Size) pkb
              = Ok (a @ pkb @ ?zq @ ?zi @ ?zs)" if "length a = 12" for a
    using copy_at_mid [of ?zp pkb "3 * int uint32Size" a "?zq @ ?zi @ ?zs"] that
    by (simp add: uint32Size_def pkb)
  have s5: "copy_at (a @ pkb @ ?zq @ ?zi @ ?zs) (3 * int uint32Size + int ?PL) plb
              = Ok (a @ pkb @ plb @ ?zi @ ?zs)" if "length a = 12" for a
    using copy_at_mid [of ?zq plb "3 * int uint32Size + int ?PL" "a @ pkb" "?zi @ ?zs"] that
    by (simp add: uint32Size_def pkb plb)
  have s6: "marshal_insurers X (a @ pkb @ plb @ ?zi @ ?zs) (3 * int uint32Size + int ?PL + int ?QL)
              (int ?PL) (insurers p) 0
              = Ok (a @ pkb @ plb @ concat (map ?encP (insurers p)) @ ?zs)" if "length a = 12" for a
    using marshal_insurers_eq [OF ins, of "a @ pkb @ plb" "3 * int uint32Size + int ?PL + int ?QL" 0 ?zs]
      that
    by (simp add: uint32Size_def pkb plb)
  have li: "length (concat (map ?encP (insurers p))) = length (insurers p) * ?PL"
    by (rule length_concat_fixed) (use ins in auto)
  have s7: "marshal_secrets X (a @ pkb @ plb @ concat (map ?encP (insurers p)) @ ?zs)
              (3 * int uint32Size + int ?PL + int ?QL + p_n p * int ?PL) (int ?SL) (secrets p) 0
              = Ok (a @ pkb @ plb @ concat (map ?encP (insurers p)) @ concat (map ?encS (secrets p)))"
    if "length a = 12" for a
    using marshal_secrets_eq [OF secs, of "a @ pkb @ plb @ concat (map ?encP (insurers p))"
        "3 * int uint32Size + int ?PL + int ?QL + p_n p * int ?PL" 0 "[]"] that
    by (simp add: uint32Size_def pkb plb li flip: n(2))
  show ?thesis
    unfolding Promise_MarshalBinary_def Let_def
    by (simp add: m s1 s2 s3 pkb plb
        s4 [of "le_bytes u @ le_bytes v @ le_bytes w" for u v w, simplified]
        s5 [of "le_bytes u @ le_bytes v @ le_bytes w" for u v w, simplified]
        s6 [of "le_bytes u @ le_bytes v @ le_bytes w" for u v w, simplified]
        s7 [of "le_bytes u @ le_bytes v @ le_bytes w" for u v w, simplified])
qed

lemma Promise_UnmarshalBinary_eq:
  assumes pop: "populated_promise X p" and su: "shareSuite p0 = shareSuite p"
    and un: "PubPoly_UnmarshalBinary X (PubPoly_Init X (shareSuite p) (p_t p))
               (the (PubPoly_MarshalBinary X (pubPoly p))) = Some pl'"
  shows "Promise_UnmarshalBinary X p0
           (le_bytes (word_of_int (p_n p)) @ le_bytes (word_of_int (p_t p))
               @ le_bytes (word_of_int (p_r p))
               @ the (Point_MarshalBinary X (pubKey p))
               @ the (PubPoly_MarshalBinary X (pubPoly p))
               @ concat (map (\<lambda>k. the (Point_MarshalBinary X k)) (insurers p))
               @ concat (map (\<lambda>k. the (Secret_MarshalBinary X k)) (secrets p)))
         = Ok (p0\<lparr> p_t := p_t p, p_r := p_r p, p_n := p_n p, pubKey := pubKey p, pubPoly := pl',
                   insurers := insurers p, secrets := secrets p \<rparr>)"
proof -
  let ?su = "shareSuite p"
  let ?PL = "PointLen X ?su"
  let ?SL = "SecretLen X ?su"
  let ?QL = "PubPoly_MarshalSize X (pubPoly p)"
  let ?encP = "\<lambda>k. the (Point_MarshalBinary X k)"
  let ?encS = "\<lambda>k. the (Secret_MarshalBinary X k)"
  let ?wn = "le_bytes (word_of_int (p_n p))"
  let ?wt = "le_bytes (word_of_int (p_t p))"
  let ?wr = "le_bytes (word_of_int (p_r p))"
  let ?I = "concat (map ?encP (insurers p))"
  let ?S = "concat (map ?encS (secrets p))"
  from pop have n: "int (length (insurers p)) = p_n p" "int (length (secrets p)) = p_n p"
    and bounds: "0 \<le> p_n p" "p_n p < 2 ^ 32" "0 \<le> p_t p" "p_t p < 2 ^ 32" "0 \<le> p_r p" "p_r p < 2 ^ 32"
    by (simp_all add: populated_promise_def)
  from pop obtain pkb where pkb: "Point_MarshalBinary X (pubKey p) = Some pkb" "length pkb = ?PL"
      "Point_UnmarshalBinary X ?su pkb = Some (pubKey p)"
    by (auto simp add: populated_promise_def point_codec_def)
  from pop obtain plb where plb: "PubPoly_MarshalBinary X (pubPoly p) = Some plb" "length plb = ?QL"
      "PubPoly_MarshalSize X (PubPoly_Init X ?su (p_t p)) = ?QL"
    by (auto simp add: populated_promise_def poly_codec_def)
  from pop have ins: "\<forall>k \<in> set (insurers p). point_codec X ?su k"
    and secs: "\<forall>k \<in> set (secrets p). secret_codec X ?su k"
    by (simp_all add: populated_promise_def)
  have li: "length ?I = length (insurers p) * ?PL"
    by (rule length_concat_fixed) (use ins in \<open>auto simp add: point_codec_def\<close>)
  let ?buf = "?wn @ ?wt @ ?wr @ pkb @ plb @ ?I @ ?S"
  have u1: "Uint32 ?buf = Ok (word_of_int (p_n p))" by (rule Uint32_le_bytes)
  have g1: "go_slice_from ?buf (int uint32Size) = Ok (?wt @ ?wr @ pkb @ plb @ ?I @ ?S)"
    by (rule go_slice_from_app) (simp add: uint32Size_def)
  have u2: "Uint32 (?wt @ ?wr @ pkb @ plb @ ?I @ ?S) = Ok (word_of_int (p_t p))"
    by (rule Uint32_le_bytes)
  have g2: "go_slice_from ?buf (2 * int uint32Size) = Ok (?wr @ pkb @ plb @ ?I @ ?S)"
    using go_slice_from_app [of "2 * int uint32Size" "?wn @ ?wt" "?wr @ pkb @ plb @ ?I @ ?S"]
    by (simp add: uint32Size_def)
  have u3: "Uint32 (?wr @ pkb @ plb @ ?I @ ?S) = Ok (word_of_int (p_r p))"
    by (rule Uint32_le_bytes)
  have v: "uint (word_of_int (p_n p) :: 32 word) = p_n p"
      "uint (word_of_int (p_t p) :: 32 word) = p_t p"
      "uint (word_of_int (p_r p) :: 32 word) = p_r p"
    using bounds by (simp_all add: uint_of_int32)
  have g3: "go_slice ?buf (3 * int uint32Size) (3 * int uint32Size + int ?PL) = Ok pkb"
    using go_slice_mid [of "3 * int uint32Size" "?wn @ ?wt @ ?wr" "3 * int uint32Size + int ?PL"
        pkb "plb @ ?I @ ?S"]
    by (simp add: uint32Size_def pkb)
  have g4: "go_slice ?buf (3 * int uint32Size + int ?PL) (3 * int uint32Size + int ?PL + int ?QL)
              = Ok plb"
    using go_slice_mid [of "3 * int uint32Size + int ?PL" "?wn @ ?wt @ ?wr @ pkb"
        "3 * int uint32Size + int ?PL + int ?QL" plb "?I @ ?S"]
    by (simp add: uint32Size_def pkb plb)
  have ui: "unmarshal_insurers X ?su ?buf (3 * int uint32Size + int ?PL + int ?QL) (int ?PL)
              [0..p_n p - 1] = Ok (insurers p)"
    using unmarshal_insurers_eq [OF ins, of "?wn @ ?wt @ ?wr @ pkb @ plb"
        "3 * int uint32Size + int ?PL + int ?QL" 0 ?S]
    by (simp add: uint32Size_def pkb plb n)
  have us: "unmarshal_secrets X ?su ?buf (3 * int uint32Size + int ?PL + int ?QL + p_n p * int ?PL)
              (int ?SL) [0..p_n p - 1] = Ok (secrets p)"
    using unmarshal_secrets_eq [OF secs, of "?wn @ ?wt @ ?wr @ pkb @ plb @ ?I"
        "3 * int uint32Size + int ?PL + int ?QL + p_n p * int ?PL" 0 "[]"]
    by (simp add: uint32Size_def pkb plb li n flip: n(1))
  from un plb have un': "PubPoly_UnmarshalBinary X (PubPoly_Init X ?su (p_t p)) plb = Some pl'"
    by simp
  show ?thesis
    unfolding Promise_UnmarshalBinary_def Let_def su
    by (simp only: pkb plb option.sel u1 g1 u2 g2 u3 rbind_Ok v g3 option.case g4 un' ui us)
qed

section \<open>The codec round trip\<close>

lemma roundtrip_signature:
  assumes "populated_signature x"
  shows "\<exists>buf. PromiseSignature_MarshalBinary x = Ok buf \<and>
           int (length buf) = PromiseSignature_MarshalSize x \<and>
           PromiseSignature_UnmarshalBinary (PromiseSignature_UnmarshalInit (sig_suite x)) buf = Ok x"
proof -
  from assms obtain s where s: "sig_signature x = Some s" "length s < 2 ^ 32"
    by (auto simp add: populated_signature_def split: option.splits)
  have m: "PromiseSignature_MarshalBinary x = Ok (le_bytes (of_nat (length s)) @ s)"
    by (simp add: PromiseSignature_MarshalBinary_eq s slice_bytes_def)
  have l: "int (length (le_bytes (of_nat (length s) :: 32 word) @ s)) = PromiseSignature_MarshalSize x"
    by (simp add: PromiseSignature_MarshalSize_def s slice_bytes_def uint32Size_def)
  have "PromiseSignature_UnmarshalBinary (PromiseSignature_UnmarshalInit (sig_suite x))
          (le_bytes (of_nat (length s)) @ s)
        = Ok (PromiseSignature_UnmarshalInit (sig_suite x)\<lparr> sig_signature := Some s \<rparr>)"
    by (rule PromiseSignature_UnmarshalBinary_eq [OF s(2)])
  also have "PromiseSignature_UnmarshalInit (sig_suite x)\<lparr> sig_signature := Some s \<rparr> = x"
    using s(1) by (cases x) (simp add: PromiseSignature_UnmarshalInit_def)
  finally show ?thesis using m l by simp
qed

lemma roundtrip_blame:
  assumes "populated_blame X b"
  shows "\<exists>buf. BlameProof_MarshalBinary X b = Ok buf \<and>
           int (length buf) = BlameProof_MarshalSize X b \<and>
           BlameProof_UnmarshalBinary X (BlameProof_UnmarshalInit b0 (bp_suite b)) buf = Ok b"
proof -
  let ?r = "BlameProof_UnmarshalInit b0 (bp_suite b)"
  from assms obtain zk s pb where
    zk: "diffieKeyProof b = Some zk" "length zk < 2 ^ 32"
    and s: "sig_signature (bp_signature b) = Some s" "4 + length s < 2 ^ 32"
    and suite: "sig_suite (bp_signature b) = bp_suite b"
    and pb: "Point_MarshalBinary X (diffieKey b) = Some pb" "length pb = PointLen X (bp_suite b)"
      "Point_UnmarshalBinary X (bp_suite b) pb = Some (diffieKey b)"
    by (auto simp add: populated_blame_def point_codec_def split: option.splits)
  let ?buf = "le_bytes (word_of_int (int (length zk)))
             @ le_bytes (word_of_int (int uint32Size + int (length s)))
             @ pb @ zk @ le_bytes (of_nat (length s)) @ s"
  have m: "BlameProof_MarshalBinary X b = Ok ?buf"
    using BlameProof_MarshalBinary_eq [OF pb(1,2)]
    by (simp add: zk s slice_bytes_def PromiseSignature_MarshalSize_def)
  have l: "int (length ?buf) = BlameProof_MarshalSize X b"
    by (simp add: BlameProof_MarshalSize_def PromiseSignature_MarshalSize_def zk s slice_bytes_def
        uint32Size_def pb)
  have rs: "bp_suite ?r = bp_suite b" by (simp add: BlameProof_UnmarshalInit_def)
  from pb have pb': "Point_UnmarshalBinary X (bp_suite ?r) pb = Some (diffieKey b)"
      "length pb = PointLen X (bp_suite ?r)"
    by (simp_all add: rs)
  have "BlameProof_UnmarshalBinary X ?r ?buf
          = Ok (?r\<lparr> diffieKey := diffieKey b, diffieKeyProof := Some zk,
                    bp_signature := \<lparr> sig_suite = bp_suite ?r, sig_signature = Some s \<rparr> \<rparr>)"
    by (rule BlameProof_UnmarshalBinary_eq [OF pb' zk(2) s(2)])
  also have "?r\<lparr> diffieKey := diffieKey b, diffieKeyProof := Some zk,
                    bp_signature := \<lparr> sig_suite = bp_suite ?r, sig_signature = Some s \<rparr> \<rparr> = b"
    using zk(1) s(1) suite
    by (cases b; cases b0; cases "bp_signature b") (simp add: BlameProof_UnmarshalInit_def)
  finally show ?thesis using m l by simp
qed

lemma roundtrip_promise:
  assumes pop: "populated_promise X p"
  shows "\<exists>buf pl'. Promise_MarshalBinary X p = Ok buf \<and>
           int (length buf) = Promise_MarshalSize X p \<and>
           Promise_UnmarshalBinary X (Promise_UnmarshalInit p0 (shareSuite p)) buf
             = Ok (p\<lparr> pubPoly := pl' \<rparr>) \<and>
           PubPoly_Equal X (pubPoly p) pl' \<and>
           (\<forall>i s. PubPoly_Check X pl' i s = PubPoly_Check X (pubPoly p) i s)"
proof -
  let ?su = "shareSuite p"
  let ?r = "Promise_UnmarshalInit p0 ?su"
  let ?buf = "le_bytes (word_of_int (p_n p)) @ le_bytes (word_of_int (p_t p))
               @ le_bytes (word_of_int (p_r p))
               @ the (Point_MarshalBinary X (pubKey p))
               @ the (PubPoly_MarshalBinary X (pubPoly p))
               @ concat (map (\<lambda>k. the (Point_MarshalBinary X k)) (insurers p))
               @ concat (map (\<lambda>k. the (Secret_MarshalBinary X k)) (secrets p))"
  from pop obtain plb pl' where
    plb: "PubPoly_MarshalBinary X (pubPoly p) = Some plb" "length plb = PubPoly_MarshalSize X (pubPoly p)"
    and un: "PubPoly_UnmarshalBinary X (PubPoly_Init X ?su (p_t p)) plb = Some pl'"
    and eq: "PubPoly_Equal X (pubPoly p) pl'"
    and chk: "\<forall>i s. PubPoly_Check X pl' i s = PubPoly_Check X (pubPoly p) i s"
    by (auto simp add: populated_promise_def poly_codec_def)
  from pop obtain pkb where pkb: "Point_MarshalBinary X (pubKey p) = Some pkb"
      "length pkb = PointLen X ?su"
    by (auto simp add: populated_promise_def point_codec_def)
  from pop have n: "int (length (insurers p)) = p_n p" "int (length (secrets p)) = p_n p"
    and ins: "\<forall>k \<in> set (insurers p). length (the (Point_MarshalBinary X k)) = PointLen X ?su"
    and secs: "\<forall>k \<in> set (secrets p). length (the (Secret_MarshalBinary X k)) = SecretLen X ?su"
    by (auto simp add: populated_promise_def point_codec_def secret_codec_def)
  have m: "Promise_MarshalBinary X p = Ok ?buf"
    by (rule Promise_MarshalBinary_eq [OF pop])
  have "int (length ?buf) = 12 + int (PointLen X ?su) + int (PubPoly_MarshalSize X (pubPoly p))
          + int (length (insurers p)) * int (PointLen X ?su)
          + int (length (secrets p)) * int (SecretLen X ?su)"
    by (simp add: pkb plb length_concat_fixed [OF ins] length_concat_fixed [OF secs])
  then have l: "int (length ?buf) = Promise_MarshalSize X p"
    by (simp add: Promise_MarshalSize_def uint32Size_def n)
  have rs: "shareSuite ?r = ?su" by (simp add: Promise_UnmarshalInit_def)
  from un plb have un': "PubPoly_UnmarshalBinary X (PubPoly_Init X ?su (p_t p))
               (the (PubPoly_MarshalBinary X (pubPoly p))) = Some pl'"
    by simp
  have "Promise_UnmarshalBinary X ?r ?buf
         = Ok (?r\<lparr> p_t := p_t p, p_r := p_r p, p_n := p_n p, pubKey := pubKey p, pubPoly := pl',
                   insurers := insurers p, secrets := secrets p \<rparr>)"
    by (rule Promise_UnmarshalBinary_eq [OF pop rs un'])
  also have "?r\<lparr> p_t := p_t p, p_r := p_r p, p_n := p_n p, pubKey := pubKey p, pubPoly := pl',
                   insurers := insurers p, secrets := secrets p \<rparr> = p\<lparr> pubPoly := pl' \<rparr>"
    by (cases p; cases p0) (simp add: Promise_UnmarshalInit_def)
  finally show ?thesis using m l eq chk by blast
qed

lemma Promise_Equal_decoded:
  assumes "int (length (insurers p)) = p_n p" "int (length (secrets p)) = p_n p"
    and "PubPoly_Equal X (pubPoly p) pl'"
  shows "Promise_Equal X p (p\<lparr> pubPoly := pl' \<rparr>) = Ok True"
proof -
  have "equal_loop p (p\<lparr> pubPoly := pl' \<rparr>) [0..p_n p - 1] = Ok True"
    by (rule equal_loop_same) (use assms in simp_all)
  with assms(3) show ?thesis by (simp add: Promise_Equal_def)
qed

lemma Verify_decoded:
  assumes "\<forall>i s. PubPoly_Check X pl' i s = PubPoly_Check X (pubPoly p) i s"
  shows "VerifyPromise (p\<lparr> pubPoly := pl' \<rparr>) key = VerifyPromise p key"
    and "VerifyShare X (p\<lparr> pubPoly := pl' \<rparr>) i kp = VerifyShare X p i kp"
    and "VerifySignature X (p\<lparr> pubPoly := pl' \<rparr>) i sig = VerifySignature X p i sig"
    and "VerifyRevealedShare X (p\<lparr> pubPoly := pl' \<rparr>) i share = VerifyRevealedShare X p i share"
    and "VerifyBlame X (p\<lparr> pubPoly := pl' \<rparr>) i bl = VerifyBlame X p i bl"
  using assms
  by (simp_all add: VerifyPromise_def VerifyShare_def VerifySignature_def verifySignature_def
      VerifyRevealedShare_def VerifyBlame_def Let_def cong: if_cong option.case_cong)

text \<open>
  Claim C8, as amended. For a fully populated \<open>PromiseSignature\<close>, a fully populated
  \<open>BlameProof\<close> whose embedded signature carries the blame proof's own suite, and a fully
  populated \<open>Promise\<close>: \<open>MarshalBinary\<close> returns a buffer whose length is \<open>MarshalSize\<close>,
  and unmarshalling that buffer into an instance initialised by \<open>UnmarshalInit\<close> with the
  same suite returns an instance that is \<open>Equal\<close> to the original and on which every
  verification returns what it returns on the original.
\<close>

theorem codec_roundtrip:
  "(populated_signature x \<longrightarrow>
      (\<exists>buf. PromiseSignature_MarshalBinary x = Ok buf \<and>
         int (length buf) = PromiseSignature_MarshalSize x \<and>
         (\<exists>x'. PromiseSignature_UnmarshalBinary (PromiseSignature_UnmarshalInit (sig_suite x)) buf
                 = Ok x' \<and>
               PromiseSignature_Equal x x' \<and>
               (\<forall>q i. VerifySignature X q i x' = VerifySignature X q i x)))) \<and>
   (populated_blame X b \<longrightarrow>
      (\<exists>buf. BlameProof_MarshalBinary X b = Ok buf \<and>
         int (length buf) = BlameProof_MarshalSize X b \<and>
         (\<exists>b'. BlameProof_UnmarshalBinary X (BlameProof_UnmarshalInit b0 (bp_suite b)) buf = Ok b' \<and>
               BlameProof_Equal b b' \<and>
               (\<forall>q i. VerifyBlame X q i b' = VerifyBlame X q i b)))) \<and>
   (populated_promise X p \<longrightarrow>
      (\<exists>buf. Promise_MarshalBinary X p = Ok buf \<and>
         int (length buf) = Promise_MarshalSize X p \<and>
         (\<exists>p'. Promise_UnmarshalBinary X (Promise_UnmarshalInit p0 (shareSuite p)) buf = Ok p' \<and>
               Promise_Equal X p p' = Ok True \<and>
               (\<forall>key i kp sig share bl.
                  VerifyPromise p' key = VerifyPromise p key \<and>
                  VerifyShare X p' i kp = VerifyShare X p i kp \<and>
                  VerifySignature X p' i sig = VerifySignature X p i sig \<and>
                  VerifyRevealedShare X p' i share = VerifyRevealedShare X p i share \<and>
                  VerifyBlame X p' i bl = VerifyBlame X p i bl))))"
proof (intro conjI impI)
  assume "populated_signature x"
  from roundtrip_signature [OF this] obtain buf where
    "PromiseSignature_MarshalBinary x = Ok buf" "int (length buf) = PromiseSignature_MarshalSize x"
    "PromiseSignature_UnmarshalBinary (PromiseSignature_UnmarshalInit (sig_suite x)) buf = Ok x"
    by blast
  moreover have "PromiseSignature_Equal x x" by (simp add: PromiseSignature_Equal_def)
  ultimately show "\<exists>buf. PromiseSignature_MarshalBinary x = Ok buf \<and>
         int (length buf) = PromiseSignature_MarshalSize x \<and>
         (\<exists>x'. PromiseSignature_UnmarshalBinary (PromiseSignature_UnmarshalInit (sig_suite x)) buf
                 = Ok x' \<and>
               PromiseSignature_Equal x x' \<and>
               (\<forall>q i. VerifySignature X q i x' = VerifySignature X q i x))"
    by auto
next
  assume "populated_blame X b"
  from roundtrip_blame [OF this, of b0] obtain buf where
    "BlameProof_MarshalBinary X b = Ok buf" "int (length buf) = BlameProof_MarshalSize X b"
    "BlameProof_UnmarshalBinary X (BlameProof_UnmarshalInit b0 (bp_suite b)) buf = Ok b"
    by blast
  moreover have "BlameProof_Equal b b"
    by (simp add: BlameProof_Equal_def PromiseSignature_Equal_def)
  ultimately show "\<exists>buf. BlameProof_MarshalBinary X b = Ok buf \<and>
         int (length buf) = BlameProof_MarshalSize X b \<and>
         (\<exists>b'. BlameProof_UnmarshalBinary X (BlameProof_UnmarshalInit b0 (bp_suite b)) buf = Ok b' \<and>
               BlameProof_Equal b b' \<and>
               (\<forall>q i. VerifyBlame X q i b' = VerifyBlame X q i b))"
    by auto
next
  assume pop: "populated_promise X p"
  from roundtrip_promise [OF pop, of p0] obtain buf pl' where
    r: "Promise_MarshalBinary X p = Ok buf" "int (length buf) = Promise_MarshalSize X p"
      "Promise_UnmarshalBinary X (Promise_UnmarshalInit p0 (shareSuite p)) buf
         = Ok (p\<lparr> pubPoly := pl' \<rparr>)"
    and eq: "PubPoly_Equal X (pubPoly p) pl'"
    and chk: "\<forall>i s. PubPoly_Check X pl' i s = PubPoly_Check X (pubPoly p) i s"
    by blast
  from pop have n: "int (length (insurers p)) = p_n p" "int (length (secrets p)) = p_n p"
    by (simp_all add: populated_promise_def)
  note e = Promise_Equal_decoded [OF n eq]
  note v = Verify_decoded [OF chk]
  from r e v show "\<exists>buf. Promise_MarshalBinary X p = Ok buf \<and>
         int (length buf) = Promise_MarshalSize X p \<and>
         (\<exists>p'. Promise_UnmarshalBinary X (Promise_UnmarshalInit p0 (shareSuite p)) buf = Ok p' \<and>
               Promise_Equal X p p' = Ok True \<and>
               (\<forall>key i kp sig share bl.
                  VerifyPromise p' key = VerifyPromise p key \<and>
                  VerifyShare X p' i kp = VerifyShare X p i kp \<and>
                  VerifySignature X p' i sig = VerifySignature X p i sig \<and>
                  VerifyRevealedShare X p' i share = VerifyRevealedShare X p i share \<and>
                  VerifyBlame X p' i bl = VerifyBlame X p i bl))"
    by auto
qed

lemma toy_point_codec: "point_codec toy su P"
  by (simp add: point_codec_def toy_decode1_def)

lemma toy_secret_codec: "secret_codec toy su s"
  by (simp add: secret_codec_def toy_decode1_def)

lemma length_toy_enc: "length (toy_enc m r) = 2 * length m + 1 + length r"
  by (induction m) (simp_all add: toy_enc_Nil toy_enc_Cons)

lemma toy_populated:
  "populated_signature (Sign toy toy_promise 0 (toy_key 7) [])"
  "populated_blame toy toy_blame"
  "populated_promise toy toy_promise"
proof -
  show "populated_signature (Sign toy toy_promise 0 (toy_key 7) [])"
    by (simp add: populated_signature_def Sign_def sign_def length_toy_enc sigMsg_def bytes_of_def)
  show "populated_blame toy toy_blame"
    by (simp add: populated_blame_def toy_blame_def length_toy_enc sigBlameMsg_def bytes_of_def
        toy_point_codec)
  show "populated_promise toy toy_promise"
    by (simp add: populated_promise_def toy_promise_def toy_point_codec toy_secret_codec
        poly_codec_def)
qed

theorem codec_roundtrip_witness:
  "(\<exists>buf. PromiseSignature_MarshalBinary (Sign toy toy_promise 0 (toy_key 7) []) = Ok buf \<and>
         int (length buf) = PromiseSignature_MarshalSize (Sign toy toy_promise 0 (toy_key 7) []) \<and>
         (\<exists>x'. PromiseSignature_UnmarshalBinary (PromiseSignature_UnmarshalInit 0) buf = Ok x' \<and>
               PromiseSignature_Equal (Sign toy toy_promise 0 (toy_key 7) []) x')) \<and>
   (\<exists>buf. BlameProof_MarshalBinary toy toy_blame = Ok buf \<and>
         int (length buf) = BlameProof_MarshalSize toy toy_blame \<and>
         (\<exists>b'. BlameProof_UnmarshalBinary toy (BlameProof_UnmarshalInit toy_mixed_blame 0) buf = Ok b' \<and>
               BlameProof_Equal toy_blame b')) \<and>
   (\<exists>buf. Promise_MarshalBinary toy toy_promise = Ok buf \<and>
         int (length buf) = Promise_MarshalSize toy toy_promise \<and>
         (\<exists>p'. Promise_UnmarshalBinary toy
                  (Promise_UnmarshalInit (toy_promise\<lparr> secrets := [] \<rparr>) 0) buf = Ok p' \<and>
               Promise_Equal toy toy_promise p' = Ok True))"
proof -
  have s: "sig_suite (Sign toy toy_promise 0 (toy_key 7) []) = 0"
    by (simp add: Sign_def sign_def)
  have b: "bp_suite toy_blame = 0" by (simp add: toy_blame_def)
  have p: "shareSuite toy_promise = 0" by (simp add: toy_promise_def)
  from codec_roundtrip [of "Sign toy toy_promise 0 (toy_key 7) []" toy toy_blame toy_mixed_blame
      toy_promise "toy_promise\<lparr> secrets := [] \<rparr>"] toy_populated
  show ?thesis
    unfolding s b p by blast
qed

text \<open>
  The claim as stated fails for a blame proof whose signature was made with a key pair of
  another suite than the promise's share suite: \<open>UnmarshalBinary\<close> gives the decoded
  signature the blame proof's suite, so the decoded blame proof is not \<open>Equal\<close> to the
  original.
\<close>

theorem codec_roundtrip_counterexample:
  "Blame toy toy_promise 0 \<lparr> Suite = 1, Public = 7, Secret = 7 \<rparr> [] [] = Ok toy_mixed_blame \<and>
   rbind (BlameProof_MarshalBinary toy toy_mixed_blame)
     (BlameProof_UnmarshalBinary toy (BlameProof_UnmarshalInit toy_mixed_blame 0)) = Ok toy_blame \<and>
   \<not> BlameProof_Equal toy_mixed_blame toy_blame"
proof -
  let ?s = "toy_enc sigBlameMsg [7]"
  have ls: "length ?s = 48"
    by (simp add: length_toy_enc sigBlameMsg_def bytes_of_def)
  have a: "Blame toy toy_promise 0 \<lparr> Suite = 1, Public = 7, Secret = 7 \<rparr> [] [] = Ok toy_mixed_blame"
    by (simp add: Blame_def sign_def toy_promise_def toy_mixed_blame_def Let_def)
  have m: "BlameProof_MarshalBinary toy toy_mixed_blame
             = Ok (le_bytes (word_of_int (int (length [7::byte])))
                   @ le_bytes (word_of_int (int uint32Size + int (length ?s)))
                   @ [21] @ [7] @ le_bytes (of_nat (length ?s)) @ ?s)"
    using BlameProof_MarshalBinary_eq [of toy toy_mixed_blame "[21]"]
    by (simp add: toy_mixed_blame_def slice_bytes_def PromiseSignature_MarshalSize_def)
  have u: "BlameProof_UnmarshalBinary toy (BlameProof_UnmarshalInit toy_mixed_blame 0)
             (le_bytes (word_of_int (int (length [7::byte])))
                   @ le_bytes (word_of_int (int uint32Size + int (length ?s)))
                   @ [21] @ [7] @ le_bytes (of_nat (length ?s)) @ ?s)
           = Ok (BlameProof_UnmarshalInit toy_mixed_blame 0\<lparr> diffieKey := 21, diffieKeyProof := Some [7],
                   bp_signature := \<lparr> sig_suite = bp_suite (BlameProof_UnmarshalInit toy_mixed_blame 0),
                                     sig_signature = Some ?s \<rparr> \<rparr>)"
    by (rule BlameProof_UnmarshalBinary_eq) (simp_all add: toy_decode1_def ls)
  have r: "BlameProof_UnmarshalInit toy_mixed_blame 0\<lparr> diffieKey := 21, diffieKeyProof := Some [7],
                   bp_signature := \<lparr> sig_suite = bp_suite (BlameProof_UnmarshalInit toy_mixed_blame 0),
                                     sig_signature = Some ?s \<rparr> \<rparr> = toy_blame"
    by (simp add: BlameProof_UnmarshalInit_def toy_mixed_blame_def toy_blame_def)
  have n: "\<not> BlameProof_Equal toy_mixed_blame toy_blame"
    by (simp add: BlameProof_Equal_def PromiseSignature_Equal_def toy_mixed_blame_def toy_blame_def)
  from a m u r n show ?thesis by simp
qed

end
